theory Spec2Isabelle
  imports Main "HOL-Library.AList"
begin

section \<open>Strings, patterns and parseInt\<close>

text \<open>
  JavaScript strings are modelled as \<^typ>\<open>string\<close>; a character stands for one code unit
  below 256. \<open>substring\<close> is \<open>String.prototype.substring\<close>: both indices are clamped to
  the string and swapped when the first exceeds the second.
\<close>

definition clamp_index :: "string \<Rightarrow> int \<Rightarrow> nat" where
  "clamp_index s i = nat (min (max i 0) (int (length s)))"

definition substring :: "string \<Rightarrow> int \<Rightarrow> int \<Rightarrow> string" where
  "substring s a b =
     (let from = min (clamp_index s a) (clamp_index s b);
          to = max (clamp_index s a) (clamp_index s b)
      in take (to - from) (drop from s))"

definition isDigit :: "char \<Rightarrow> bool" where
  "isDigit c = (48 \<le> (of_char c :: nat) \<and> (of_char c :: nat) \<le> 57)"

definition isUpper :: "char \<Rightarrow> bool" where
  "isUpper c = (65 \<le> (of_char c :: nat) \<and> (of_char c :: nat) \<le> 90)"

definition isLower :: "char \<Rightarrow> bool" where
  "isLower c = (97 \<le> (of_char c :: nat) \<and> (of_char c :: nat) \<le> 122)"

text \<open>\<^verbatim>\<open>invalidSeparatorPattern = /[a-zA-Z0-9 ]/\<close>, as \<^verbatim>\<open>.test(s)\<close>: some character matches.\<close>

definition invalidSeparatorChar :: "char \<Rightarrow> bool" where
  "invalidSeparatorChar c = (isLower c \<or> isUpper c \<or> isDigit c \<or> c = CHR '' '')"

definition invalidSeparatorPattern :: "string \<Rightarrow> bool" where
  "invalidSeparatorPattern s = (\<exists>c \<in> set s. invalidSeparatorChar c)"

text \<open>\<^verbatim>\<open>recordKeyPattern = /[A-Z]{3}/\<close>, as \<^verbatim>\<open>.test(s)\<close>: three consecutive capitals somewhere.\<close>

fun recordKeyPattern :: "string \<Rightarrow> bool" where
  "recordKeyPattern (a # b # c # rest) =
     ((isUpper a \<and> isUpper b \<and> isUpper c) \<or> recordKeyPattern (b # c # rest))"
| "recordKeyPattern _ = False"

text \<open>
  \<^verbatim>\<open>parseInt(s)\<close> with no radix: leading white space is dropped, a sign is read, a
  \<^verbatim>\<open>0x\<close> prefix selects radix 16, and the longest run of digits is converted; no digit
  at all gives \<^verbatim>\<open>NaN\<close>, here \<open>None\<close>.
\<close>

definition isStrWhiteSpaceChar :: "char \<Rightarrow> bool" where
  "isStrWhiteSpaceChar c = ((of_char c :: nat) \<in> {9, 10, 11, 12, 13, 32, 160})"

definition digitVal :: "char \<Rightarrow> nat option" where
  "digitVal c =
     (if isDigit c then Some (of_char c - 48)
      else if isLower c then Some (of_char c - 87)
      else if isUpper c then Some (of_char c - 55)
      else None)"

definition isRadixDigit :: "nat \<Rightarrow> char \<Rightarrow> bool" where
  "isRadixDigit R c = (case digitVal c of Some d \<Rightarrow> d < R | None \<Rightarrow> False)"

definition digitsValue :: "nat \<Rightarrow> string \<Rightarrow> nat" where
  "digitsValue R Z = foldl (\<lambda>a c. a * R + (case digitVal c of Some d \<Rightarrow> d | None \<Rightarrow> 0)) 0 Z"

definition parseInt :: "string \<Rightarrow> int option" where
  "parseInt inputString =
     (let S = dropWhile isStrWhiteSpaceChar inputString;
          sign = (if take 1 S = ''-'' then - 1 else 1 :: int);
          S1 = (if take 1 S = ''+'' \<or> take 1 S = ''-'' then drop 1 S else S);
          hex = (take 2 S1 = ''0x'' \<or> take 2 S1 = ''0X'');
          R = (if hex then 16 else 10);
          S2 = (if hex then drop 2 S1 else S1);
          Z = takeWhile (isRadixDigit R) S2
      in if Z = [] then None else Some (sign * int (digitsValue R Z)))"

section \<open>The growable buffer reader (class StringIO)\<close>

datatype error = EOF | HeaderParseError | ParseError

record StringIO =
  data :: string
  pos :: int

definition avail :: "StringIO \<Rightarrow> int" where
  "avail r = int (length (data r)) - pos r"

definition peek :: "int \<Rightarrow> StringIO \<Rightarrow> error + string" where
  "peek n r = (if n > avail r then Inl EOF else Inr (substring (data r) (pos r) (pos r + n)))"

text \<open>\<open>read\<close> returns the reader as the call leaves it: untouched when \<open>peek\<close> throws.\<close>

definition read :: "int \<Rightarrow> StringIO \<Rightarrow> (error + string) \<times> StringIO" where
  "read n r = (case peek n r of
                 Inl e \<Rightarrow> (Inl e, r)
               | Inr res \<Rightarrow> (Inr res, r\<lparr>pos := pos r + n\<rparr>))"

definition append_io :: "string \<Rightarrow> StringIO \<Rightarrow> StringIO" where
  "append_io d r = r\<lparr>data := data r @ d\<rparr>"

section \<open>The data model\<close>

record Header =
  dataElementSeparator :: string
  recordSeparator :: string
  segmentTerminator :: string
  iin :: string
  aamvaVersion :: string
  jurisdictionVersion :: string
  numEntries :: int

record SubfileDesignator =
  sd_type :: string
  sd_offset :: int
  sd_length :: int

text \<open>
  A \<^verbatim>\<open>Map\<close> is an association list in insertion order; \<^verbatim>\<open>set\<close> is
  \<^const>\<open>AList.update\<close>: an existing key keeps its place, a new key goes last.
\<close>

type_synonym SubfileData = "(string \<times> string) list"

type_synonym Subfiles = "(string \<times> SubfileData) list"

record ParseResult =
  header :: Header
  subfileDesignators :: "SubfileDesignator list"
  subfiles :: Subfiles

definition SUBFILE_DESIGNATOR_SIZE :: int where
  "SUBFILE_DESIGNATOR_SIZE = 10"

section \<open>The step engine (parse.ts, the parser driven by \<^verbatim>\<open>parse()\<close>)\<close>

text \<open>
  A parse step is a closure of the source; here it is a constructor holding what the
  closure captures. The nine closures of \<^verbatim>\<open>makeParseHeaderFunc\<close> are named after
  what they read. The record steps capture the window reader \<^verbatim>\<open>sfReader\<close> and the
  \<^verbatim>\<open>records\<close> map, both mutable objects that only the pending closure refers to.
\<close>

datatype ParseFunc =
    ParseHeaderFunc
  | ExpectAt
  | ReadDataElementSeparator
  | ReadRecordSeparator
  | ReadSegmentTerminator
  | ExpectANSI
  | ReadIin
  | ReadAamvaVersion
  | ReadJurisdictionVersion
  | ReadNumEntries
  | ParseSubfileDesignatorsFunc
  | ParseSubfileDesignatorFunc
  | ParseSubfilesFunc
  | ParseSubfileFunc SubfileDesignator
  | MaybeParseRecordFunc StringIO string SubfileData
  | ParseRecordFunc StringIO string SubfileData

text \<open>\<^verbatim>\<open>ParseFuncResult\<close>: the new result and the follow-up steps (none when absent).\<close>

type_synonym ParseFuncResult = "ParseResult \<times> ParseFunc list"

definition readSeparator :: "StringIO \<Rightarrow> (error + string) \<times> StringIO" where
  "readSeparator reader =
     (case read 1 reader of
        (Inl e, reader) \<Rightarrow> (Inl e, reader)
      | (Inr sep, reader) \<Rightarrow>
          if invalidSeparatorPattern sep then (Inl HeaderParseError, reader)
          else (Inr sep, reader))"

text \<open>The closure of \<^verbatim>\<open>makeParseSubfileDesignatorFunc\<close>; it returns the reader as left.\<close>

definition parseSubfileDesignator ::
  "StringIO \<Rightarrow> ParseResult \<Rightarrow> (error + ParseFuncResult) \<times> StringIO" where
  "parseSubfileDesignator reader result =
     (case peek SUBFILE_DESIGNATOR_SIZE reader of
        Inl e \<Rightarrow> (Inl e, reader)
      | Inr block \<Rightarrow>
          (case read 2 \<lparr>data = block, pos = 0\<rparr> of
             (Inl e, copied) \<Rightarrow> (Inl e, reader)
           | (Inr ty, copied) \<Rightarrow>
               (case read 4 copied of
                  (Inl e, copied) \<Rightarrow> (Inl e, reader)
                | (Inr off, copied) \<Rightarrow>
                    (case read 4 copied of
                       (Inl e, copied) \<Rightarrow> (Inl e, reader)
                     | (Inr len, copied) \<Rightarrow>
                         (case parseInt off of
                            None \<Rightarrow> (Inl ParseError, reader)
                          | Some offset \<Rightarrow>
                              (case parseInt len of
                                 None \<Rightarrow> (Inl ParseError, reader)
                               | Some length' \<Rightarrow>
                                   (case read SUBFILE_DESIGNATOR_SIZE reader of
                                      (Inl e, reader) \<Rightarrow> (Inl e, reader)
                                    | (Inr _, reader) \<Rightarrow>
                                        (Inr (result\<lparr>subfileDesignators :=
                                                subfileDesignators result @
                                                [\<lparr>sd_type = ty, sd_offset = offset,
                                                  sd_length = length'\<rparr>]\<rparr>, []),
                                         reader))))))))"

text \<open>\<^verbatim>\<open>parseSubfile\<close> only reads \<^verbatim>\<open>reader.data\<close>; the window reader is new.\<close>

definition parseSubfile ::
  "StringIO \<Rightarrow> ParseResult \<Rightarrow> SubfileDesignator \<Rightarrow> error + ParseFuncResult" where
  "parseSubfile reader result subfileDesignator =
     (case peek (sd_length subfileDesignator)
             \<lparr>data = data reader, pos = sd_offset subfileDesignator\<rparr> of
        Inl e \<Rightarrow> Inl e
      | Inr window \<Rightarrow>
          if sd_type subfileDesignator = ''DL'' \<or> sd_type subfileDesignator = ''ID'' then
            (case read 2 \<lparr>data = window, pos = 0\<rparr> of
               (Inl e, sfReader) \<Rightarrow> Inl e
             | (Inr _, sfReader) \<Rightarrow>
                 Inr (result, [MaybeParseRecordFunc sfReader (sd_type subfileDesignator) []]))
          else Inr (result, []))"

text \<open>
  \<^verbatim>\<open>maybeParseRecord\<close> catches the end of the window and commits the records; it
  returns the window reader as left.
\<close>

definition maybeParseRecord ::
  "StringIO \<Rightarrow> ParseResult \<Rightarrow> string \<Rightarrow> SubfileData \<Rightarrow> (error + ParseFuncResult) \<times> StringIO" where
  "maybeParseRecord reader result sfType records =
     (case peek 1 reader of
        Inl e \<Rightarrow>
          if e = EOF then
            (Inr (result\<lparr>subfiles := AList.update sfType records (subfiles result)\<rparr>, []), reader)
          else (Inl e, reader)
      | Inr next \<Rightarrow>
          if next = segmentTerminator (header result) then
            (case read 1 reader of
               (Inl e, reader) \<Rightarrow> (Inl e, reader)
             | (Inr _, reader) \<Rightarrow>
                 (Inr (result\<lparr>subfiles := AList.update sfType records (subfiles result)\<rparr>, []),
                  reader))
          else (Inr (result, [ParseRecordFunc reader sfType records]), reader))"

text \<open>
  The \<^verbatim>\<open>while (true)\<close> loop of \<^verbatim>\<open>parseRecord\<close>. It returns the window reader
  and the records map as the call leaves them, also when it throws.
\<close>

function parseRecord_loop ::
  "StringIO \<Rightarrow> ParseResult \<Rightarrow> string \<Rightarrow> SubfileData \<Rightarrow> string \<Rightarrow> StringIO \<Rightarrow> string \<Rightarrow>
   (error + ParseFuncResult) \<times> StringIO \<times> SubfileData" where
  "parseRecord_loop reader result sfType records key copied val =
     (case peek 1 copied of
        Inl e \<Rightarrow> (Inl e, reader, records)
      | Inr next \<Rightarrow>
          if next = segmentTerminator (header result) \<or>
             next = dataElementSeparator (header result) then
            (let records = AList.update key val records in
             case read (int (length key) + int (length val)) reader of
               (Inl e, reader) \<Rightarrow> (Inl e, reader, records)
             | (Inr _, reader) \<Rightarrow>
                 if next = dataElementSeparator (header result) then
                   (case read 1 reader of
                      (Inl e, reader) \<Rightarrow> (Inl e, reader, records)
                    | (Inr _, reader) \<Rightarrow>
                        (Inr (result, [MaybeParseRecordFunc reader sfType records]),
                         reader, records))
                 else (Inr (result, [MaybeParseRecordFunc reader sfType records]),
                       reader, records))
          else
            (case read 1 copied of
               (Inl e, copied) \<Rightarrow> (Inl e, reader, records)
             | (Inr _, copied) \<Rightarrow>
                 parseRecord_loop reader result sfType records key copied (val @ next)))"
  by pat_completeness auto
termination
  by (relation "measure (\<lambda>(reader, result, sfType, records, key, copied, val). nat (avail copied))")
     (auto simp: read_def peek_def avail_def split: if_splits)

definition parseRecord ::
  "StringIO \<Rightarrow> ParseResult \<Rightarrow> string \<Rightarrow> SubfileData \<Rightarrow>
   (error + ParseFuncResult) \<times> StringIO \<times> SubfileData" where
  "parseRecord reader result sfType records =
     (case read 3 \<lparr>data = data reader, pos = pos reader\<rparr> of
        (Inl e, copied) \<Rightarrow> (Inl e, reader, records)
      | (Inr key, copied) \<Rightarrow>
          if \<not> recordKeyPattern key then (Inl ParseError, reader, records)
          else parseRecord_loop reader result sfType records key copied [])"

text \<open>
  Calling a step. A step that throws leaves the shared reader, and the objects the closure
  captured, as they are at the throw: \<open>Threw\<close> carries them. A step that returns
  gives the reader, the new result and the follow-up steps.
\<close>

datatype outcome =
    Threw error StringIO ParseFunc
  | Returned StringIO ParseResult "ParseFunc list"

fun call :: "ParseFunc \<Rightarrow> StringIO \<Rightarrow> ParseResult \<Rightarrow> outcome" where
  "call ParseHeaderFunc reader result =
     Returned reader result
       [ExpectAt, ReadDataElementSeparator, ReadRecordSeparator, ReadSegmentTerminator,
        ExpectANSI, ReadIin, ReadAamvaVersion, ReadJurisdictionVersion, ReadNumEntries]"
| "call ExpectAt reader result =
     (case read 1 reader of
        (Inl e, reader) \<Rightarrow> Threw e reader ExpectAt
      | (Inr a, reader) \<Rightarrow>
          if a \<noteq> ''@'' then Threw HeaderParseError reader ExpectAt
          else Returned reader result [])"
| "call ReadDataElementSeparator reader result =
     (case readSeparator reader of
        (Inl e, reader) \<Rightarrow> Threw e reader ReadDataElementSeparator
      | (Inr sep, reader) \<Rightarrow>
          Returned reader (result\<lparr>header := (header result)\<lparr>dataElementSeparator := sep\<rparr>\<rparr>) [])"
| "call ReadRecordSeparator reader result =
     (case readSeparator reader of
        (Inl e, reader) \<Rightarrow> Threw e reader ReadRecordSeparator
      | (Inr sep, reader) \<Rightarrow>
          Returned reader (result\<lparr>header := (header result)\<lparr>recordSeparator := sep\<rparr>\<rparr>) [])"
| "call ReadSegmentTerminator reader result =
     (case readSeparator reader of
        (Inl e, reader) \<Rightarrow> Threw e reader ReadSegmentTerminator
      | (Inr sep, reader) \<Rightarrow>
          Returned reader (result\<lparr>header := (header result)\<lparr>segmentTerminator := sep\<rparr>\<rparr>) [])"
| "call ExpectANSI reader result =
     (case read 5 reader of
        (Inl e, reader) \<Rightarrow> Threw e reader ExpectANSI
      | (Inr s, reader) \<Rightarrow>
          if s \<noteq> ''ANSI '' then Threw ParseError reader ExpectANSI
          else Returned reader result [])"
| "call ReadIin reader result =
     (case read 6 reader of
        (Inl e, reader) \<Rightarrow> Threw e reader ReadIin
      | (Inr s, reader) \<Rightarrow>
          Returned reader (result\<lparr>header := (header result)\<lparr>iin := s\<rparr>\<rparr>) [])"
| "call ReadAamvaVersion reader result =
     (case read 2 reader of
        (Inl e, reader) \<Rightarrow> Threw e reader ReadAamvaVersion
      | (Inr s, reader) \<Rightarrow>
          Returned reader (result\<lparr>header := (header result)\<lparr>aamvaVersion := s\<rparr>\<rparr>) [])"
| "call ReadJurisdictionVersion reader result =
     (case read 2 reader of
        (Inl e, reader) \<Rightarrow> Threw e reader ReadJurisdictionVersion
      | (Inr s, reader) \<Rightarrow>
          Returned reader (result\<lparr>header := (header result)\<lparr>jurisdictionVersion := s\<rparr>\<rparr>) [])"
| "call ReadNumEntries reader result =
     (case read 2 reader of
        (Inl e, reader) \<Rightarrow> Threw e reader ReadNumEntries
      | (Inr s, reader) \<Rightarrow>
          (case parseInt s of
             None \<Rightarrow> Threw ParseError reader ReadNumEntries
           | Some n \<Rightarrow>
               Returned reader (result\<lparr>header := (header result)\<lparr>numEntries := n\<rparr>\<rparr>) []))"
| "call ParseSubfileDesignatorsFunc reader result =
     Returned reader result
       (replicate (nat (numEntries (header result))) ParseSubfileDesignatorFunc)"
| "call ParseSubfileDesignatorFunc reader result =
     (case parseSubfileDesignator reader result of
        (Inl e, reader) \<Rightarrow> Threw e reader ParseSubfileDesignatorFunc
      | (Inr (result, nxt), reader) \<Rightarrow> Returned reader result nxt)"
| "call ParseSubfilesFunc reader result =
     Returned reader result (map ParseSubfileFunc (subfileDesignators result))"
| "call (ParseSubfileFunc sd) reader result =
     (case parseSubfile reader result sd of
        Inl e \<Rightarrow> Threw e reader (ParseSubfileFunc sd)
      | Inr (result, nxt) \<Rightarrow> Returned reader result nxt)"
| "call (MaybeParseRecordFunc sfReader sfType records) reader result =
     (case maybeParseRecord sfReader result sfType records of
        (Inl e, sfReader) \<Rightarrow> Threw e reader (MaybeParseRecordFunc sfReader sfType records)
      | (Inr (result, nxt), sfReader) \<Rightarrow> Returned reader result nxt)"
| "call (ParseRecordFunc sfReader sfType records) reader result =
     (case parseRecord sfReader result sfType records of
        (Inl e, sfReader, records) \<Rightarrow>
          Threw e reader (ParseRecordFunc sfReader sfType records)
      | (Inr (result, nxt), sfReader, records) \<Rightarrow> Returned reader result nxt)"

text \<open>Class \<^verbatim>\<open>_Parser\<close>: the reader it was given, the step queue and the result.\<close>

record Parser =
  reader :: StringIO
  funcs :: "ParseFunc list"
  result :: ParseResult

definition initialResult :: ParseResult where
  "initialResult =
     \<lparr>header = \<lparr>dataElementSeparator = [], recordSeparator = [], segmentTerminator = [],
                 iin = [], aamvaVersion = [], jurisdictionVersion = [], numEntries = 0\<rparr>,
      subfileDesignators = [], subfiles = []\<rparr>"

definition makeDLIDParser :: "StringIO \<Rightarrow> Parser" where
  "makeDLIDParser rd =
     \<lparr>reader = rd,
      funcs = [ParseHeaderFunc, ParseSubfileDesignatorsFunc, ParseSubfilesFunc],
      result = initialResult\<rparr>"

text \<open>
  A bound on the engine iterations still to come, for the termination of \<^verbatim>\<open>parse()\<close>:
  \<open>L\<close> is the buffer length, \<open>n\<close> bounds the entry count and \<open>k\<close> the number of
  designators collected when the step runs.
\<close>

fun cost :: "nat \<Rightarrow> ParseFunc list \<Rightarrow> nat \<Rightarrow> nat \<Rightarrow> nat" where
  "cost L [] n k = 0"
| "cost L (ParseHeaderFunc # fs) n k = 10 + cost L fs (max n 255) k"
| "cost L (ReadNumEntries # fs) n k = 1 + cost L fs (max n 255) k"
| "cost L (ParseSubfileDesignatorsFunc # fs) n k = 1 + n + cost L fs n (k + n)"
| "cost L (ParseSubfileDesignatorFunc # fs) n k = 1 + cost L fs n (k + 1)"
| "cost L (ParseSubfilesFunc # fs) n k = 1 + k * (2 * L + 4) + cost L fs n k"
| "cost L (ParseSubfileFunc sd # fs) n k = 2 * L + 4 + cost L fs n k"
| "cost L (MaybeParseRecordFunc sf ty recs # fs) n k = 2 * nat (avail sf) + 2 + cost L fs n k"
| "cost L (ParseRecordFunc sf ty recs # fs) n k = 2 * nat (avail sf) + 1 + cost L fs n k"
| "cost L (f # fs) n k = 1 + cost L fs n k"

definition parser_cost :: "Parser \<Rightarrow> nat" where
  "parser_cost p =
     cost (length (data (reader p))) (funcs p) (nat (numEntries (header (result p))))
       (length (subfileDesignators (result p)))"

subsection \<open>Facts about the steps, for the termination of the engine\<close>

lemma read_Inl: "read n r = (Inl e, r') \<Longrightarrow> r' = r \<and> e = EOF"
  by (auto simp: read_def peek_def split: if_splits)

lemma read_Inr: "read n r = (Inr s, r') \<Longrightarrow>
  r' = r\<lparr>pos := pos r + n\<rparr> \<and> n \<le> avail r \<and> s = substring (data r) (pos r) (pos r + n)"
  by (auto simp: read_def peek_def split: if_splits)

lemma length_substring_le: "length (substring s a b) \<le> length s"
  by (simp add: substring_def Let_def)

lemma length_substring_width: "0 \<le> n \<Longrightarrow> length (substring s a (a + n)) \<le> nat n"
proof -
  assume n: "0 \<le> n"
  have "max (clamp_index s a) (clamp_index s (a + n)) - min (clamp_index s a) (clamp_index s (a + n)) \<le> nat n"
    using n unfolding clamp_index_def by linarith
  then show ?thesis by (simp add: substring_def Let_def min.coboundedI2)
qed

lemma recordKeyPattern_length: "recordKeyPattern k \<Longrightarrow> 3 \<le> length k"
  by (induction k rule: recordKeyPattern.induct) auto

lemma digits_fold_bound:
  "\<forall>c \<in> set Z. isRadixDigit R c \<Longrightarrow>
   foldl (\<lambda>a c. a * R + (case digitVal c of Some d \<Rightarrow> d | None \<Rightarrow> 0)) a Z + 1
     \<le> (a + 1) * R ^ length Z"
proof (induction Z arbitrary: a)
  case Nil
  then show ?case by simp
next
  case (Cons c Z)
  from Cons.prems obtain d where d: "digitVal c = Some d" "d < R"
    by (auto simp: isRadixDigit_def split: option.splits)
  have "foldl (\<lambda>a c. a * R + (case digitVal c of Some d \<Rightarrow> d | None \<Rightarrow> 0)) (a * R + d) Z + 1
        \<le> (a * R + d + 1) * R ^ length Z"
    using Cons.IH [of "a * R + d"] Cons.prems by simp
  also have "\<dots> \<le> ((a + 1) * R) * R ^ length Z"
    using d by (intro mult_le_mono1) (simp add: algebra_simps)
  finally show ?case using d by (simp add: algebra_simps)
qed

lemma digitsValue_bound:
  "\<forall>c \<in> set Z. isRadixDigit R c \<Longrightarrow> digitsValue R Z < R ^ length Z"
  using digits_fold_bound [of Z R 0] by (simp add: digitsValue_def)

lemma parseInt_bound:
  assumes "parseInt s = Some v" and "length s \<le> 2"
  shows "nat v \<le> 255"
proof -
  define S where "S = dropWhile isStrWhiteSpaceChar s"
  define S1 where "S1 = (if take 1 S = ''+'' \<or> take 1 S = ''-'' then drop 1 S else S)"
  define hex where "hex = (take 2 S1 = ''0x'' \<or> take 2 S1 = ''0X'')"
  define R :: nat where "R = (if hex then 16 else 10)"
  define S2 where "S2 = (if hex then drop 2 S1 else S1)"
  define Z where "Z = takeWhile (isRadixDigit R) S2"
  have len: "length Z \<le> 2"
  proof -
    have "length Z \<le> length S2" unfolding Z_def by (rule length_takeWhile_le)
    also have "\<dots> \<le> length S1" unfolding S2_def by simp
    also have "\<dots> \<le> length S" unfolding S1_def by simp
    also have "\<dots> \<le> length s" unfolding S_def by (rule length_dropWhile_le)
    finally show ?thesis using assms(2) by simp
  qed
  have "\<forall>c \<in> set Z. isRadixDigit R c"
    unfolding Z_def by (auto dest: set_takeWhileD)
  then have "digitsValue R Z < R ^ length Z" by (rule digitsValue_bound)
  also have "\<dots> \<le> 16 ^ length Z" by (rule power_mono) (simp_all add: R_def)
  also have "\<dots> \<le> (16::nat) ^ 2" using len by (intro power_increasing) simp_all
  finally have dv: "digitsValue R Z < 256" by simp
  from assms(1) have "v = int (digitsValue R Z) \<or> v = - int (digitsValue R Z)"
    unfolding parseInt_def Let_def S_def [symmetric] S1_def [symmetric] hex_def [symmetric]
      R_def [symmetric] S2_def [symmetric] Z_def [symmetric]
    by (auto split: if_splits)
  with dv show ?thesis by auto
qed


lemma cost_mono: "n \<le> n' \<Longrightarrow> k \<le> k' \<Longrightarrow> cost L fs n k \<le> cost L fs n' k'"
proof (induction L fs n k arbitrary: n' k' rule: cost.induct)
  case (6 L fs n k)
  have "k * (2 * L + 4) \<le> k' * (2 * L + 4)" using "6.prems" by (intro mult_le_mono1)
  moreover have "cost L fs n k \<le> cost L fs n' k'" using "6.IH" "6.prems" by simp
  ultimately have "1 + k * (2 * L + 4) + cost L fs n k \<le> 1 + k' * (2 * L + 4) + cost L fs n' k'"
    by linarith
  then show ?case by simp
qed (auto intro!: add_le_mono)

lemma cost_replicate:
  "cost L (replicate m ParseSubfileDesignatorFunc @ fs) n k = m + cost L fs n (k + m)"
  by (induction m arbitrary: k) auto

lemma cost_map_subfile:
  "cost L (map ParseSubfileFunc ds @ fs) n k = length ds * (2 * L + 4) + cost L fs n k"
  by (induction ds) auto

declare parseRecord_loop.simps [simp del]

lemma parseRecord_loop_Inr:
  "parseRecord_loop rd res ty recs key copied val = (Inr (res', nxt), rd', recs') \<Longrightarrow>
   res' = res \<and> nxt = [MaybeParseRecordFunc rd' ty recs'] \<and>
   int (length key) \<le> avail rd \<and> avail rd' \<le> avail rd - int (length key)"
proof (induction rd res ty recs key copied val rule: parseRecord_loop.induct)
  case (1 reader result sfType records key copied val)
  show ?case
    using "1.prems" "1.IH"
    apply (subst (asm) parseRecord_loop.simps)
    apply (auto split: sum.splits if_splits prod.splits simp: Let_def dest!: read_Inr read_Inl)
    apply (auto simp: avail_def)
    done
qed

lemma parseRecord_Inr:
  "parseRecord rd res ty recs = (Inr (res', nxt), rd', recs') \<Longrightarrow>
   res' = res \<and> nxt = [MaybeParseRecordFunc rd' ty recs'] \<and>
   3 \<le> avail rd \<and> avail rd' \<le> avail rd - 3"
  apply (auto simp: parseRecord_def split: prod.splits sum.splits if_splits
      dest!: parseRecord_loop_Inr recordKeyPattern_length)
  done

lemma readSeparator_data: "readSeparator rd = (x, rd') \<Longrightarrow> data rd' = data rd"
  by (auto simp: readSeparator_def split: prod.splits sum.splits if_splits dest!: read_Inr read_Inl)

lemma parseSubfileDesignator_Inr:
  "parseSubfileDesignator rd res = (Inr (res', nxt), rd') \<Longrightarrow>
   data rd' = data rd \<and> nxt = [] \<and> header res' = header res \<and>
   length (subfileDesignators res') = Suc (length (subfileDesignators res))"
  unfolding parseSubfileDesignator_def
  by (auto split: prod.splits sum.splits option.splits dest!: read_Inr read_Inl)


lemma parseSubfile_Inr:
  "parseSubfile rd res sd = Inr (res', nxt) \<Longrightarrow>
   res' = res \<and> (nxt = [] \<or> (\<exists>sf ty recs. nxt = [MaybeParseRecordFunc sf ty recs] \<and>
      nat (avail sf) \<le> length (data rd)))"
proof -
  assume a: "parseSubfile rd res sd = Inr (res', nxt)"
  have w: "\<And>a b. nat (int (length (substring (data rd) a b)) - 2) \<le> length (data rd)"
  proof -
    fix a b
    show "nat (int (length (substring (data rd) a b)) - 2) \<le> length (data rd)"
      using length_substring_le [of "data rd" a b] by linarith
  qed
  show ?thesis
    using a w
    by (auto simp: parseSubfile_def peek_def avail_def split: prod.splits sum.splits if_splits
        dest!: read_Inr read_Inl)
qed

lemma maybeParseRecord_Inr:
  "maybeParseRecord sf res ty recs = (Inr (res', nxt), sf') \<Longrightarrow>
   header res' = header res \<and> subfileDesignators res' = subfileDesignators res \<and>
   (nxt = [] \<or> nxt = [ParseRecordFunc sf ty recs])"
  by (auto simp: maybeParseRecord_def split: prod.splits sum.splits if_splits)

lemma call_decreases:
  assumes "call f rd res = Returned rd' res' nxt"
  shows "data rd' = data rd \<and>
         cost (length (data rd)) (nxt @ fs) (nat (numEntries (header res')))
            (length (subfileDesignators res'))
         < cost (length (data rd)) (f # fs) (nat (numEntries (header res)))
            (length (subfileDesignators res))"
proof (cases f)
  case ReadNumEntries
  from assms ReadNumEntries obtain s n where
    s: "read 2 rd = (Inr s, rd')" and n: "parseInt s = Some n"
    and res': "res' = res\<lparr>header := (header res)\<lparr>numEntries := n\<rparr>\<rparr>" and nxt: "nxt = []"
    by (auto split: prod.splits sum.splits option.splits)
  from s have "length s \<le> 2"
    using length_substring_width [of 2 "data rd" "pos rd"] by (auto dest!: read_Inr)
  with n have "nat n \<le> 255" by (rule parseInt_bound)
  then have "cost (length (data rd)) fs (nat n) (length (subfileDesignators res))
     \<le> cost (length (data rd)) fs (max (nat (numEntries (header res))) 255) (length (subfileDesignators res))"
    by (intro cost_mono) simp_all
  with s show ?thesis using ReadNumEntries res' nxt by (auto dest!: read_Inr)
next
  case ParseSubfileDesignatorsFunc
  with assms show ?thesis
    by (auto simp: cost_replicate)
next
  case ParseSubfileDesignatorFunc
  with assms show ?thesis
    by (auto split: prod.splits sum.splits dest!: parseSubfileDesignator_Inr)
next
  case ParseSubfilesFunc
  with assms show ?thesis by (auto simp: cost_map_subfile)
next
  case (ParseSubfileFunc sd)
  with assms show ?thesis
    by (auto split: prod.splits sum.splits dest!: parseSubfile_Inr)
next
  case (MaybeParseRecordFunc sf ty recs)
  with assms show ?thesis
    by (auto split: prod.splits sum.splits dest!: maybeParseRecord_Inr)
next
  case (ParseRecordFunc sf ty recs)
  with assms show ?thesis
    by (auto split: prod.splits sum.splits dest!: parseRecord_Inr)
qed (use assms in \<open>auto split: prod.splits sum.splits if_splits
      dest!: read_Inr read_Inl readSeparator_data\<close>)

text \<open>
  \<^verbatim>\<open>parse()\<close>: while the queue is not empty, call its first step on the result, store
  the result it returns and splice its follow-up steps in its place. A throw leaves the
  loop with the queue and the result as they were.
\<close>

function parse :: "Parser \<Rightarrow> (error + ParseResult) \<times> Parser" where
  "parse p =
     (case funcs p of
        [] \<Rightarrow> (Inr (result p), p)
      | cur # rest \<Rightarrow>
          (case call cur (reader p) (result p) of
             Threw e rd cur' \<Rightarrow> (Inl e, p\<lparr>reader := rd, funcs := cur' # rest\<rparr>)
           | Returned rd res nxt \<Rightarrow>
               parse (p\<lparr>reader := rd, result := res, funcs := nxt @ rest\<rparr>)))"
  by pat_completeness auto
termination
  apply (relation "measure parser_cost")
   apply simp
  subgoal for p cur rest rd res nxt
    using call_decreases [of cur "reader p" "result p" rd res nxt rest]
    by (simp add: parser_cost_def)
  done

declare parse.simps [simp del]

section \<open>The append-driven parser (parse.ts, class \<^verbatim>\<open>_Parser\<close> with \<^verbatim>\<open>append\<close>)\<close>

text \<open>
  parse.ts also holds the parser that is fed through \<^verbatim>\<open>append(data)\<close> and keeps
  \<^verbatim>\<open>error\<close> and \<^verbatim>\<open>done\<close> flags. Its names carry the suffix \<open>_A\<close>. Its
  \<^verbatim>\<open>StringReader\<close> is the class \<^verbatim>\<open>StringIO\<close> word for word, and it has one error class
  for every validation failure, \<^verbatim>\<open>ParseError\<close>.
\<close>

definition readSeparator_A :: "StringIO \<Rightarrow> (error + string) \<times> StringIO" where
  "readSeparator_A rd =
     (case read 1 rd of
        (Inl e, rd) \<Rightarrow> (Inl e, rd)
      | (Inr s, rd) \<Rightarrow>
          if invalidSeparatorPattern s then (Inl ParseError, rd) else (Inr s, rd))"

definition parseSubfileDesignator_A :: "StringIO \<Rightarrow> (error + SubfileDesignator) \<times> StringIO" where
  "parseSubfileDesignator_A rd =
     (case peek SUBFILE_DESIGNATOR_SIZE rd of
        Inl e \<Rightarrow> (Inl e, rd)
      | Inr block \<Rightarrow>
          (case read 2 \<lparr>data = block, pos = 0\<rparr> of
             (Inl e, copied) \<Rightarrow> (Inl e, rd)
           | (Inr ty, copied) \<Rightarrow>
               (case read 4 copied of
                  (Inl e, copied) \<Rightarrow> (Inl e, rd)
                | (Inr off, copied) \<Rightarrow>
                    (case read 4 copied of
                       (Inl e, copied) \<Rightarrow> (Inl e, rd)
                     | (Inr len, copied) \<Rightarrow>
                         (case (parseInt off, parseInt len) of
                            (Some offset, Some length') \<Rightarrow>
                              (case read SUBFILE_DESIGNATOR_SIZE rd of
                                 (Inl e, rd) \<Rightarrow> (Inl e, rd)
                               | (Inr _, rd) \<Rightarrow>
                                   (Inr \<lparr>sd_type = ty, sd_offset = offset,
                                         sd_length = length'\<rparr>, rd))
                          | _ \<Rightarrow> (Inl ParseError, rd))))))"

text \<open>The loop of \<^verbatim>\<open>parseRecord\<close>: it returns the value and the local reader.\<close>

function parseRecord_loop_A :: "Header \<Rightarrow> StringIO \<Rightarrow> string \<Rightarrow> error + (string \<times> StringIO)" where
  "parseRecord_loop_A hdr copied val =
     (case peek 1 copied of
        Inl e \<Rightarrow> Inl e
      | Inr nxt \<Rightarrow>
          if nxt = dataElementSeparator hdr \<or> nxt = segmentTerminator hdr then Inr (val, copied)
          else
            (case read 1 copied of
               (Inl e, copied) \<Rightarrow> Inl e
             | (Inr c, copied) \<Rightarrow> parseRecord_loop_A hdr copied (val @ c)))"
  by pat_completeness auto
termination
  by (relation "measure (\<lambda>(hdr, copied, val). nat (avail copied))")
     (auto simp: read_def peek_def avail_def split: if_splits)

declare parseRecord_loop_A.simps [simp del]

definition parseRecord_A :: "Header \<Rightarrow> StringIO \<Rightarrow> (error + (string \<times> string)) \<times> StringIO" where
  "parseRecord_A hdr rd =
     (case read 3 \<lparr>data = data rd, pos = pos rd\<rparr> of
        (Inl e, copied) \<Rightarrow> (Inl e, rd)
      | (Inr key, copied) \<Rightarrow>
          if \<not> recordKeyPattern key then (Inl ParseError, rd)
          else
            (case parseRecord_loop_A hdr copied [] of
               Inl e \<Rightarrow> (Inl e, rd)
             | Inr (val, copied) \<Rightarrow> (Inr (key, val), rd\<lparr>pos := pos copied\<rparr>)))"

lemma parseRecord_loop_A_pos:
  "parseRecord_loop_A hdr copied val = Inr (v, copied') \<Longrightarrow>
   data copied' = data copied \<and> pos copied \<le> pos copied'"
proof (induction hdr copied val rule: parseRecord_loop_A.induct)
  case (1 hdr copied val)
  from "1.prems" obtain nxt where nxt: "peek 1 copied = Inr nxt"
    by (subst (asm) parseRecord_loop_A.simps) (auto split: sum.splits)
  show ?case
  proof (cases "nxt = dataElementSeparator hdr \<or> nxt = segmentTerminator hdr")
    case True
    with nxt "1.prems" show ?thesis
      by (subst (asm) parseRecord_loop_A.simps) auto
  next
    case False
    with nxt "1.prems"
    have "parseRecord_loop_A hdr (copied\<lparr>pos := pos copied + 1\<rparr>) (val @ nxt) = Inr (v, copied')"
      by (subst (asm) parseRecord_loop_A.simps) (auto simp: read_def)
    with "1.IH" nxt False
    show ?thesis by (fastforce simp: read_def)
  qed
qed

lemma parseRecord_A_Inr:
  "parseRecord_A hdr rd = (Inr kv, rd') \<Longrightarrow>
   data rd' = data rd \<and> 3 \<le> avail rd \<and> pos rd + 3 \<le> pos rd'"
  by (auto simp: parseRecord_A_def avail_def split: prod.splits sum.splits if_splits
      dest!: parseRecord_loop_A_pos read_Inr read_Inl)

text \<open>
  The scan loop of \<^verbatim>\<open>parseSubfile\<close> over the window reader; the window reader it
  leaves is returned with the records.
\<close>

function parseSubfile_loop_A ::
  "Header \<Rightarrow> StringIO \<Rightarrow> SubfileData \<Rightarrow> (error + SubfileData) \<times> StringIO" where
  "parseSubfile_loop_A hdr sfReader records =
     (case peek 1 sfReader of
        Inl e \<Rightarrow> (Inl e, sfReader)
      | Inr nxt \<Rightarrow>
          if nxt = segmentTerminator hdr then
            (case read 1 sfReader of
               (Inl e, sfReader) \<Rightarrow> (Inl e, sfReader)
             | (Inr _, sfReader) \<Rightarrow> (Inr records, sfReader))
          else if nxt = dataElementSeparator hdr then
            (case read 1 sfReader of
               (Inl e, sfReader) \<Rightarrow> (Inl e, sfReader)
             | (Inr _, sfReader) \<Rightarrow> parseSubfile_loop_A hdr sfReader records)
          else
            (case parseRecord_A hdr sfReader of
               (Inl e, sfReader) \<Rightarrow> (Inl e, sfReader)
             | (Inr (k, v), sfReader) \<Rightarrow>
                 parseSubfile_loop_A hdr sfReader (AList.update k v records)))"
  by pat_completeness auto
termination
  apply (relation "measure (\<lambda>(hdr, sfReader, records). nat (avail sfReader))")
    apply simp
   apply (auto simp: read_def peek_def avail_def split: if_splits)[1]
  apply (auto simp: avail_def dest!: parseRecord_A_Inr sym [of "(_, _)" "parseRecord_A _ _"])
  done

declare parseSubfile_loop_A.simps [simp del]

definition parseSubfile_A :: "Header \<Rightarrow> SubfileDesignator \<Rightarrow> StringIO \<Rightarrow> error + SubfileData" where
  "parseSubfile_A hdr subfileDesignator rd =
     (case peek (sd_length subfileDesignator)
             \<lparr>data = data rd, pos = sd_offset subfileDesignator\<rparr> of
        Inl e \<Rightarrow> Inl e
      | Inr window \<Rightarrow>
          (case read 2 \<lparr>data = window, pos = 0\<rparr> of
             (Inl e, sfReader) \<Rightarrow> Inl e
           | (Inr _, sfReader) \<Rightarrow> fst (parseSubfile_loop_A hdr sfReader [])))"


text \<open>
  The step closures of the constructor: the nine of \<^verbatim>\<open>makeHeaderParsers\<close>, the one
  that pushes a designator step per entry, the designator step, and the subfile step it
  pushes. Pushed steps go to the end of \<^verbatim>\<open>this.steps\<close>.
\<close>

datatype Step_A =
    ExpectAt_A
  | ReadDataElementSeparator_A
  | ReadRecordSeparator_A
  | ReadSegmentTerminator_A
  | ExpectANSI_A
  | ReadIin_A
  | ReadAamvaVersion_A
  | ReadJurisdictionVersion_A
  | ReadNumEntries_A
  | PushDesignatorSteps_A
  | DesignatorStep_A
  | SubfileStep_A SubfileDesignator

record Parser_A =
  reader_A :: StringIO
  error_A :: "error option"
  header_A :: Header
  subfileDesignators_A :: "SubfileDesignator list"
  subfiles_A :: Subfiles
  done_A :: bool
  steps_A :: "Step_A list"

definition makeDLIDParser_A :: "string \<Rightarrow> Parser_A" where
  "makeDLIDParser_A initialData =
     \<lparr>reader_A = \<lparr>data = initialData, pos = 0\<rparr>,
      error_A = None,
      header_A = \<lparr>dataElementSeparator = [], recordSeparator = [], segmentTerminator = [],
                   iin = [], aamvaVersion = [], jurisdictionVersion = [], numEntries = 0\<rparr>,
      subfileDesignators_A = [],
      subfiles_A = [],
      done_A = False,
      steps_A = [ExpectAt_A, ReadDataElementSeparator_A, ReadRecordSeparator_A,
                 ReadSegmentTerminator_A, ExpectANSI_A, ReadIin_A, ReadAamvaVersion_A,
                 ReadJurisdictionVersion_A, ReadNumEntries_A, PushDesignatorSteps_A]\<rparr>"

text \<open>
  Running a step closure: \<open>Some e\<close> when it throws \<open>e\<close>, with the parser as the throw
  leaves it.
\<close>

fun step_A :: "Step_A \<Rightarrow> Parser_A \<Rightarrow> error option \<times> Parser_A" where
  "step_A ExpectAt_A p =
     (case read 1 (reader_A p) of
        (Inl e, rd) \<Rightarrow> (Some e, p\<lparr>reader_A := rd\<rparr>)
      | (Inr s, rd) \<Rightarrow>
          if s \<noteq> ''@'' then (Some ParseError, p\<lparr>reader_A := rd\<rparr>)
          else (None, p\<lparr>reader_A := rd\<rparr>))"
| "step_A ReadDataElementSeparator_A p =
     (case readSeparator_A (reader_A p) of
        (Inl e, rd) \<Rightarrow> (Some e, p\<lparr>reader_A := rd\<rparr>)
      | (Inr s, rd) \<Rightarrow>
          (None, p\<lparr>reader_A := rd, header_A := (header_A p)\<lparr>dataElementSeparator := s\<rparr>\<rparr>))"
| "step_A ReadRecordSeparator_A p =
     (case readSeparator_A (reader_A p) of
        (Inl e, rd) \<Rightarrow> (Some e, p\<lparr>reader_A := rd\<rparr>)
      | (Inr s, rd) \<Rightarrow>
          (None, p\<lparr>reader_A := rd, header_A := (header_A p)\<lparr>recordSeparator := s\<rparr>\<rparr>))"
| "step_A ReadSegmentTerminator_A p =
     (case readSeparator_A (reader_A p) of
        (Inl e, rd) \<Rightarrow> (Some e, p\<lparr>reader_A := rd\<rparr>)
      | (Inr s, rd) \<Rightarrow>
          (None, p\<lparr>reader_A := rd, header_A := (header_A p)\<lparr>segmentTerminator := s\<rparr>\<rparr>))"
| "step_A ExpectANSI_A p =
     (case read 5 (reader_A p) of
        (Inl e, rd) \<Rightarrow> (Some e, p\<lparr>reader_A := rd\<rparr>)
      | (Inr s, rd) \<Rightarrow>
          if s \<noteq> ''ANSI '' then (Some ParseError, p\<lparr>reader_A := rd\<rparr>)
          else (None, p\<lparr>reader_A := rd\<rparr>))"
| "step_A ReadIin_A p =
     (case read 6 (reader_A p) of
        (Inl e, rd) \<Rightarrow> (Some e, p\<lparr>reader_A := rd\<rparr>)
      | (Inr s, rd) \<Rightarrow> (None, p\<lparr>reader_A := rd, header_A := (header_A p)\<lparr>iin := s\<rparr>\<rparr>))"
| "step_A ReadAamvaVersion_A p =
     (case read 2 (reader_A p) of
        (Inl e, rd) \<Rightarrow> (Some e, p\<lparr>reader_A := rd\<rparr>)
      | (Inr s, rd) \<Rightarrow>
          (None, p\<lparr>reader_A := rd, header_A := (header_A p)\<lparr>aamvaVersion := s\<rparr>\<rparr>))"
| "step_A ReadJurisdictionVersion_A p =
     (case read 2 (reader_A p) of
        (Inl e, rd) \<Rightarrow> (Some e, p\<lparr>reader_A := rd\<rparr>)
      | (Inr s, rd) \<Rightarrow>
          (None, p\<lparr>reader_A := rd, header_A := (header_A p)\<lparr>jurisdictionVersion := s\<rparr>\<rparr>))"
| "step_A ReadNumEntries_A p =
     (case read 2 (reader_A p) of
        (Inl e, rd) \<Rightarrow> (Some e, p\<lparr>reader_A := rd\<rparr>)
      | (Inr s, rd) \<Rightarrow>
          (case parseInt s of
             None \<Rightarrow> (Some ParseError, p\<lparr>reader_A := rd\<rparr>)
           | Some num \<Rightarrow>
               (None, p\<lparr>reader_A := rd, header_A := (header_A p)\<lparr>numEntries := num\<rparr>\<rparr>)))"
| "step_A PushDesignatorSteps_A p =
     (None, p\<lparr>steps_A := steps_A p @
                replicate (nat (numEntries (header_A p))) DesignatorStep_A\<rparr>)"
| "step_A DesignatorStep_A p =
     (case parseSubfileDesignator_A (reader_A p) of
        (Inl e, rd) \<Rightarrow> (Some e, p\<lparr>reader_A := rd\<rparr>)
      | (Inr sd, rd) \<Rightarrow>
          (None, p\<lparr>reader_A := rd,
                   subfileDesignators_A := subfileDesignators_A p @ [sd],
                   steps_A := steps_A p @ [SubfileStep_A sd]\<rparr>))"
| "step_A (SubfileStep_A sd) p =
     (if sd_type sd = ''DL'' \<or> sd_type sd = ''ID'' then
        (case parseSubfile_A (header_A p) sd (reader_A p) of
           Inl e \<Rightarrow> (Some e, p)
         | Inr parsed \<Rightarrow>
             (None, p\<lparr>subfiles_A := AList.update (sd_type sd) parsed (subfiles_A p)\<rparr>))
      else
        (case peek (sd_length sd) \<lparr>data = data (reader_A p), pos = sd_offset sd\<rparr> of
           Inl e \<Rightarrow> (Some e, p)
         | Inr _ \<Rightarrow> (None, p\<lparr>subfiles_A := AList.update (sd_type sd) [] (subfiles_A p)\<rparr>)))"

definition updateParseOnce_A :: "Parser_A \<Rightarrow> error option \<times> Parser_A" where
  "updateParseOnce_A p =
     (case steps_A p of
        [] \<Rightarrow> (None, p\<lparr>done_A := True\<rparr>)
      | step # _ \<Rightarrow>
          (case step_A step p of
             (Some e, p) \<Rightarrow> (Some e, p)
           | (None, p) \<Rightarrow> (None, p\<lparr>steps_A := drop 1 (steps_A p)\<rparr>)))"

fun weight_A :: "nat \<Rightarrow> Step_A \<Rightarrow> nat" where
  "weight_A M PushDesignatorSteps_A = 1 + 2 * M"
| "weight_A M DesignatorStep_A = 2"
| "weight_A M _ = 1"

definition cost_A :: "Parser_A \<Rightarrow> nat" where
  "cost_A p =
     (if done_A p then 0
      else 1 + sum_list (map (weight_A (max (nat (numEntries (header_A p))) 255)) (steps_A p)))"

lemma weight_A_mono: "M' \<le> M \<Longrightarrow> weight_A M' s \<le> weight_A M s"
  by (cases s) auto

lemma sum_weight_A_mono:
  "M' \<le> M \<Longrightarrow> sum_list (map (weight_A M') fs) \<le> sum_list (map (weight_A M) fs)"
  by (induction fs) (auto intro!: add_le_mono weight_A_mono)

lemma parseSubfileDesignator_A_data:
  "parseSubfileDesignator_A rd = (x, rd') \<Longrightarrow> data rd' = data rd"
  unfolding parseSubfileDesignator_A_def
  by (auto split: prod.splits sum.splits option.splits dest!: read_Inr read_Inl)

lemma step_A_decreases:
  assumes "step_A s p = (None, p')" and "steps_A p = s # rest"
  shows "done_A p' = done_A p \<and> error_A p' = error_A p \<and>
         sum_list (map (weight_A (max (nat (numEntries (header_A p'))) 255)) (drop 1 (steps_A p')))
         < sum_list (map (weight_A (max (nat (numEntries (header_A p))) 255)) (steps_A p))"
proof (cases s)
  case ReadNumEntries_A
  from assms ReadNumEntries_A obtain str rd n where
    s: "read 2 (reader_A p) = (Inr str, rd)" and n: "parseInt str = Some n"
    and p': "p' = p\<lparr>reader_A := rd, header_A := (header_A p)\<lparr>numEntries := n\<rparr>\<rparr>"
    by (auto split: prod.splits sum.splits option.splits)
  from s have "length str \<le> 2"
    using length_substring_width [of 2 "data (reader_A p)" "pos (reader_A p)"]
    by (auto dest!: read_Inr)
  with n have "nat n \<le> 255" by (rule parseInt_bound)
  then have "max (nat n) 255 \<le> max (nat (numEntries (header_A p))) 255" by simp
  then have "sum_list (map (weight_A (max (nat n) 255)) rest)
     \<le> sum_list (map (weight_A (max (nat (numEntries (header_A p))) 255)) rest)"
    by (rule sum_weight_A_mono)
  then show ?thesis using assms(2) ReadNumEntries_A p' by simp
next
  case PushDesignatorSteps_A
  with assms show ?thesis by (auto simp: sum_list_replicate)
next
  case DesignatorStep_A
  with assms show ?thesis
    by (auto split: prod.splits sum.splits)
next
  case (SubfileStep_A sd)
  with assms show ?thesis
    by (auto split: sum.splits if_splits)
qed (use assms in \<open>auto split: prod.splits sum.splits if_splits\<close>)

lemma updateParseOnce_A_decreases:
  assumes "\<not> done_A p" and "updateParseOnce_A p = (None, p')"
  shows "cost_A p' < cost_A p"
proof (cases "steps_A p")
  case Nil
  with assms show ?thesis by (auto simp: updateParseOnce_A_def cost_A_def)
next
  case (Cons s rest)
  with assms obtain q where q: "step_A s p = (None, q)"
    and p': "p' = q\<lparr>steps_A := drop 1 (steps_A q)\<rparr>"
    by (auto simp: updateParseOnce_A_def split: prod.splits option.splits)
  from step_A_decreases [OF q Cons] assms(1) p' show ?thesis
    by (simp add: cost_A_def)
qed

text \<open>The loop of \<^verbatim>\<open>updateParse\<close> with its \<^verbatim>\<open>catch\<close>.\<close>

function updateParse_loop_A :: "Parser_A \<Rightarrow> bool \<times> Parser_A" where
  "updateParse_loop_A p =
     (if \<not> done_A p \<and> error_A p = None then
        (case updateParseOnce_A p of
           (Some e, p) \<Rightarrow> if e = EOF then (True, p) else (False, p\<lparr>error_A := Some e\<rparr>)
         | (None, p) \<Rightarrow> updateParse_loop_A p)
      else (False, p))"
  by pat_completeness auto
termination
  by (relation "measure cost_A")
     (auto intro: updateParseOnce_A_decreases dest: sym [of "(_, _)" "updateParseOnce_A _"])

declare updateParse_loop_A.simps [simp del]

definition updateParse_A :: "Parser_A \<Rightarrow> bool \<times> Parser_A" where
  "updateParse_A p = (if error_A p \<noteq> None then (False, p) else updateParse_loop_A p)"

definition append_A :: "string \<Rightarrow> Parser_A \<Rightarrow> bool \<times> Parser_A" where
  "append_A d p =
     (if error_A p \<noteq> None \<or> done_A p then (False, p)
      else updateParse_A (p\<lparr>reader_A := append_io d (reader_A p)\<rparr>))"

section \<open>The one-call header parser (src/unnamed/part_002)\<close>

text \<open>
  A third copy of the parser reads the header in one call, \<^verbatim>\<open>parseHeader\<close>, from a
  \<^verbatim>\<open>StringReader\<close> that is again the class \<^verbatim>\<open>StringIO\<close>. Its names carry the suffix
  \<open>_M\<close>. \<^verbatim>\<open>charAt\<close> gives the empty string out of range.
\<close>

definition HEADER_SIZE :: int where
  "HEADER_SIZE = 21"

text \<open>\<^verbatim>\<open>badHeaderPattern = /[a-zA-Z0-9]/\<close>, as \<^verbatim>\<open>.test(s)\<close>.\<close>

definition badHeaderPattern :: "string \<Rightarrow> bool" where
  "badHeaderPattern s = (\<exists>c \<in> set s. isLower c \<or> isUpper c \<or> isDigit c)"

definition charAt :: "string \<Rightarrow> nat \<Rightarrow> string" where
  "charAt s i = (if i < length s then [s ! i] else [])"

definition parseHeader_M :: "StringIO \<Rightarrow> (error + Header) \<times> StringIO" where
  "parseHeader_M rd =
     (case peek 2 rd of
        Inl e \<Rightarrow> (Inl e, rd)
      | Inr check \<Rightarrow>
          if charAt check 0 \<noteq> ''@'' \<or> badHeaderPattern (charAt check 1) then (Inl ParseError, rd)
          else
     (case peek HEADER_SIZE rd of
        Inl e \<Rightarrow> (Inl e, rd)
      | Inr block \<Rightarrow>
     (case read 1 \<lparr>data = block, pos = 0\<rparr> of
        (Inl e, copied) \<Rightarrow> (Inl e, rd)
      | (Inr _, copied) \<Rightarrow>
     (case read 1 copied of
        (Inl e, copied) \<Rightarrow> (Inl e, rd)
      | (Inr dataElementSeparator', copied) \<Rightarrow>
     (case read 1 copied of
        (Inl e, copied) \<Rightarrow> (Inl e, rd)
      | (Inr recordSeparator', copied) \<Rightarrow>
     (case read 1 copied of
        (Inl e, copied) \<Rightarrow> (Inl e, rd)
      | (Inr segmentTerminator', copied) \<Rightarrow>
     (case read 5 copied of
        (Inl e, copied) \<Rightarrow> (Inl e, rd)
      | (Inr ansi, copied) \<Rightarrow>
          if ansi \<noteq> ''ANSI '' then (Inl ParseError, rd)
          else
     (case read 6 copied of
        (Inl e, copied) \<Rightarrow> (Inl e, rd)
      | (Inr iin', copied) \<Rightarrow>
     (case read 2 copied of
        (Inl e, copied) \<Rightarrow> (Inl e, rd)
      | (Inr aamvaVersion', copied) \<Rightarrow>
     (case read 2 copied of
        (Inl e, copied) \<Rightarrow> (Inl e, rd)
      | (Inr jurisdictionVersion', copied) \<Rightarrow>
     (case read 2 copied of
        (Inl e, copied) \<Rightarrow> (Inl e, rd)
      | (Inr num, copied) \<Rightarrow>
     (case parseInt num of
        None \<Rightarrow> (Inl ParseError, rd)
      | Some numEntries' \<Rightarrow>
     (case read HEADER_SIZE rd of
        (Inl e, rd) \<Rightarrow> (Inl e, rd)
      | (Inr _, rd) \<Rightarrow>
          (Inr \<lparr>dataElementSeparator = dataElementSeparator',
                recordSeparator = recordSeparator',
                segmentTerminator = segmentTerminator',
                iin = iin', aamvaVersion = aamvaVersion',
                jurisdictionVersion = jurisdictionVersion',
                numEntries = numEntries'\<rparr>, rd))))))))))))))"

section \<open>Example data of the tests (parse.test.ts)\<close>

definition exampleDataHeader :: Header where
  "exampleDataHeader =
     \<lparr>dataElementSeparator = [CHR 0x0A], recordSeparator = [CHR 0x1E],
      segmentTerminator = [CHR 0x0D], iin = ''636000'', aamvaVersion = ''11'',
      jurisdictionVersion = ''00'', numEntries = 2\<rparr>"

text \<open>A result whose header is that of the example and that holds nothing else yet.\<close>

definition exampleHeaderResult :: ParseResult where
  "exampleHeaderResult =
     \<lparr>header = exampleDataHeader, subfileDesignators = [], subfiles = []\<rparr>"

text \<open>The subfile body of the record boundary example.\<close>

definition boundaryBody :: string where
  "boundaryBody = ''DLDAQT64235789'' @ [CHR 0x0A] @ ''DCSSAMPLE'' @ [CHR 0x0D]"

text \<open>
  The same body with a data element separator right after the type, and a whole input that
  declares it as its one subfile.
\<close>

definition leadingSeparatorBody :: string where
  "leadingSeparatorBody = ''DL'' @ [CHR 0x0A] @ ''DAQT64235789'' @ [CHR 0x0A] @ ''DCSSAMPLE'' @ [CHR 0x0D]"

definition leadingSeparatorInput :: string where
  "leadingSeparatorInput =
     [CHR ''@'', CHR 0x0A, CHR 0x1E, CHR 0x0D] @ ''ANSI 636000110001'' @ ''DL00310026'' @
     leadingSeparatorBody"

text \<open>
  An input whose one designator declares offset 38 and length \<open>-7\<close>: \<^verbatim>\<open>parseInt\<close> reads the
  sign. The character \<open>c\<close> stands at index 36, before the declared offset.
\<close>

definition negativeLengthInput :: "char \<Rightarrow> string" where
  "negativeLengthInput c =
     [CHR ''@'', CHR 0x0A, CHR 0x1E, CHR 0x0D] @ ''ANSI 636000110001'' @ ''DL0038-007'' @
     ''DLDAQ'' @ [c, CHR 0x0D]"

text \<open>
  An input with two subfiles, the record boundary body as \<^verbatim>\<open>DL\<close> and a \<^verbatim>\<open>ZV\<close> subfile as
  in the example data of the tests.
\<close>

definition unrecognizedInput :: string where
  "unrecognizedInput =
     [CHR ''@'', CHR 0x0A, CHR 0x1E, CHR 0x0D] @ ''ANSI 636000110002'' @
     ''DL00410025'' @ ''ZV00660008'' @ boundaryBody @ ''ZVZVA01'' @ [CHR 0x0D]"


section \<open>Notions used to state the facts and the claims\<close>

text \<open>The three steps of the header that read a separator.\<close>

definition isSeparatorStep :: "ParseFunc \<Rightarrow> bool" where
  "isSeparatorStep f =
     (f = ReadDataElementSeparator \<or> f = ReadRecordSeparator \<or> f = ReadSegmentTerminator)"

text \<open>
  The steps that scan the records of one subfile, the subfile type they hold, and two
  results whose headers have the same data element separator and segment terminator.
\<close>

fun isRecordStep :: "ParseFunc \<Rightarrow> bool" where
  "isRecordStep (MaybeParseRecordFunc sf ty recs) = True"
| "isRecordStep (ParseRecordFunc sf ty recs) = True"
| "isRecordStep _ = False"

fun stepType :: "ParseFunc \<Rightarrow> string" where
  "stepType (MaybeParseRecordFunc sf ty recs) = ty"
| "stepType (ParseRecordFunc sf ty recs) = ty"
| "stepType _ = []"

definition sameSeparators :: "ParseResult \<Rightarrow> ParseResult \<Rightarrow> bool" where
  "sameSeparators r r' =
     (dataElementSeparator (header r) = dataElementSeparator (header r') \<and>
      segmentTerminator (header r) = segmentTerminator (header r'))"

text \<open>Every key and value of the records is made of characters of the window.\<close>

definition recordsWithin :: "string \<Rightarrow> SubfileData \<Rightarrow> bool" where
  "recordsWithin w recs = (\<forall>(k, v) \<in> set recs. set k \<subseteq> set w \<and> set v \<subseteq> set w)"

fun stepWithin :: "string \<Rightarrow> ParseFunc \<Rightarrow> bool" where
  "stepWithin w (MaybeParseRecordFunc sf ty recs) = (data sf = w \<and> recordsWithin w recs)"
| "stepWithin w (ParseRecordFunc sf ty recs) = (data sf = w \<and> recordsWithin w recs)"
| "stepWithin w _ = False"

text \<open>Two readers, both inside their buffers, with the same characters still to come.\<close>

definition sameRest :: "StringIO \<Rightarrow> StringIO \<Rightarrow> bool" where
  "sameRest r1 r2 =
     (0 \<le> pos r1 \<and> pos r1 \<le> int (length (data r1)) \<and>
      0 \<le> pos r2 \<and> pos r2 \<le> int (length (data r2)) \<and>
      drop (nat (pos r1)) (data r1) = drop (nat (pos r2)) (data r2))"

text \<open>
  Subfiles with no key but \<^verbatim>\<open>DL\<close> and \<^verbatim>\<open>ID\<close>, and the steps that can only commit
  under such a key.
\<close>

definition recognizedOnly :: "Subfiles \<Rightarrow> bool" where
  "recognizedOnly sfs = (\<forall>k \<in> fst ` set sfs. k = ''DL'' \<or> k = ''ID'')"

fun stepRecognized :: "ParseFunc \<Rightarrow> bool" where
  "stepRecognized (MaybeParseRecordFunc sf ty recs) = (ty = ''DL'' \<or> ty = ''ID'')"
| "stepRecognized (ParseRecordFunc sf ty recs) = (ty = ''DL'' \<or> ty = ''ID'')"
| "stepRecognized _ = True"

text \<open>Feeding chunks to the append-driven parser, one \<^verbatim>\<open>append\<close> call for each, in order.\<close>

definition feed_A :: "string list \<Rightarrow> Parser_A \<Rightarrow> Parser_A" where
  "feed_A ds p = foldl (\<lambda>q d. snd (append_A d q)) p ds"






section \<open>Facts about the engine\<close>

lemma parse_Nil: "funcs p = [] \<Longrightarrow> parse p = (Inr (result p), p)"
  by (subst parse.simps) simp

lemma parse_Threw:
  "funcs p = cur # rest \<Longrightarrow> call cur (reader p) (result p) = Threw e rd cur' \<Longrightarrow>
   parse p = (Inl e, p\<lparr>reader := rd, funcs := cur' # rest\<rparr>)"
  by (subst parse.simps) simp

lemma parse_Returned:
  "funcs p = cur # rest \<Longrightarrow> call cur (reader p) (result p) = Returned rd res nxt \<Longrightarrow>
   parse p = parse (p\<lparr>reader := rd, result := res, funcs := nxt @ rest\<rparr>)"
  by (subst parse.simps) simp

lemma peek_Inl: "peek n r = Inl e \<Longrightarrow> e = EOF \<and> avail r < n"
  by (auto simp: peek_def split: if_splits)

lemma maybeParseRecord_no_throw: "fst (maybeParseRecord sf res ty recs) \<noteq> Inl e"
  by (auto simp: maybeParseRecord_def read_def peek_def split: sum.splits prod.splits if_splits)

lemma parseRecord_loop_Inl:
  "parseRecord_loop rd res ty recs key copied val = (Inl e, rd', recs') \<Longrightarrow>
   data copied = data rd \<Longrightarrow>
   int (length key) + int (length val) \<le> pos copied - pos rd \<Longrightarrow>
   e = EOF \<and> rd' = rd \<and> recs' = recs"
proof (induction rd res ty recs key copied val rule: parseRecord_loop.induct)
  case (1 reader result sfType records key copied val)
  show ?case
  proof (cases "peek 1 copied")
    case (Inl e')
    with "1.prems"(1) show ?thesis
      by (subst (asm) parseRecord_loop.simps) (auto dest: peek_Inl)
  next
    case (Inr nxt)
    then have av: "1 \<le> avail copied" and nxt: "nxt = substring (data copied) (pos copied) (pos copied + 1)"
      by (auto simp: peek_def split: if_splits)
    show ?thesis
    proof (cases "nxt = segmentTerminator (header result) \<or> nxt = dataElementSeparator (header result)")
      case True
      have "int (length key) + int (length val) + 1 \<le> avail reader"
        using av "1.prems"(2,3) by (simp add: avail_def)
      with True Inr "1.prems"(1) show ?thesis
        by (subst (asm) parseRecord_loop.simps)
           (auto simp: read_def peek_def Let_def avail_def split: if_splits)
    next
      case False
      have len: "length nxt \<le> 1"
        using length_substring_width [of 1 "data copied" "pos copied"] nxt by simp
      from False Inr "1.prems"(1) av
      have rec: "parseRecord_loop reader result sfType records key (copied\<lparr>pos := pos copied + 1\<rparr>)
                   (val @ nxt) = (Inl e, rd', recs')"
        by (subst (asm) parseRecord_loop.simps) (auto simp: read_def)
      from "1.IH" Inr False rec "1.prems"(2,3) len av show ?thesis
        by (fastforce simp: read_def)
    qed
  qed
qed

lemma parseRecord_Inl:
  "parseRecord rd res ty recs = (Inl e, rd', recs') \<Longrightarrow> rd' = rd \<and> recs' = recs"
proof -
  assume a: "parseRecord rd res ty recs = (Inl e, rd', recs')"
  show ?thesis
  proof (cases "read 3 \<lparr>data = data rd, pos = pos rd\<rparr>")
    case (Pair x copied)
    show ?thesis
    proof (cases x)
      case (Inl e')
      with a Pair show ?thesis by (simp add: parseRecord_def)
    next
      case (Inr key)
      with Pair have c: "copied = \<lparr>data = data rd, pos = pos rd + 3\<rparr>"
        and k: "key = substring (data rd) (pos rd) (pos rd + 3)"
        by (auto dest!: read_Inr)
      have "length key \<le> 3" using length_substring_width [of 3 "data rd" "pos rd"] k by simp
      with a Pair Inr c show ?thesis
        using parseRecord_loop_Inl [of rd res ty recs key copied "[]" e rd' recs']
        by (auto simp: parseRecord_def split: if_splits)
    qed
  qed
qed

lemma parseSubfileDesignator_Inl:
  "parseSubfileDesignator rd res = (Inl e, rd') \<Longrightarrow> rd' = rd"
  unfolding parseSubfileDesignator_def
  by (auto split: prod.splits sum.splits option.splits simp: read_def peek_def split: if_splits)

lemma call_Threw_EOF:
  assumes "call f rd res = Threw EOF rd' f'"
  shows "rd' = rd \<and> f' = f"
proof (cases f)
  case ParseSubfileDesignatorFunc
  with assms show ?thesis
    by (auto split: prod.splits sum.splits dest!: parseSubfileDesignator_Inl)
next
  case (ParseSubfileFunc sd)
  with assms show ?thesis by (auto split: prod.splits sum.splits)
next
  case (MaybeParseRecordFunc sf ty recs)
  with assms maybeParseRecord_no_throw [of sf res ty recs EOF] show ?thesis
    by (auto split: prod.splits sum.splits)
next
  case (ParseRecordFunc sf ty recs)
  with assms show ?thesis
    by (auto split: prod.splits sum.splits dest!: parseRecord_Inl)
qed (use assms in \<open>auto simp: readSeparator_def split: prod.splits sum.splits if_splits option.splits
      dest!: read_Inl\<close>)

lemma substring_single:
  "0 \<le> i \<Longrightarrow> i < int (length s) \<Longrightarrow> substring s i (i + 1) = [s ! nat i]"
proof -
  assume a: "0 \<le> i" "i < int (length s)"
  then have c: "clamp_index s i = nat i" "clamp_index s (i + 1) = Suc (nat i)"
    by (auto simp: clamp_index_def)
  from a have "nat i < length s" by simp
  then have "take 1 (drop (nat i) s) = [s ! nat i]"
    by (simp add: take_Suc_conv_app_nth [of 0, simplified] hd_drop_conv_nth take_Suc)
  with c show ?thesis by (simp add: substring_def Let_def)
qed

lemma read_one:
  "0 \<le> pos rd \<Longrightarrow> pos rd < int (length (data rd)) \<Longrightarrow>
   read 1 rd = (Inr [data rd ! nat (pos rd)], rd\<lparr>pos := pos rd + 1\<rparr>)"
  by (simp add: read_def peek_def avail_def substring_single)

lemma readSeparator_invalid:
  assumes "0 \<le> pos rd" and "pos rd < int (length (data rd))"
    and "invalidSeparatorChar (data rd ! nat (pos rd))"
  shows "readSeparator rd = (Inl HeaderParseError, rd\<lparr>pos := pos rd + 1\<rparr>)"
  using assms by (simp add: readSeparator_def read_one invalidSeparatorPattern_def)

lemma readSeparator_valid:
  assumes "0 \<le> pos rd" and "pos rd < int (length (data rd))"
    and "\<not> invalidSeparatorChar (data rd ! nat (pos rd))"
  shows "readSeparator rd = (Inr [data rd ! nat (pos rd)], rd\<lparr>pos := pos rd + 1\<rparr>)"
  using assms by (simp add: readSeparator_def read_one invalidSeparatorPattern_def)

lemma parse_Cons:
  "parse \<lparr>reader = rd, funcs = cur # rest, result = res\<rparr> =
     (case call cur rd res of
        Threw e rd' cur' \<Rightarrow> (Inl e, \<lparr>reader = rd', funcs = cur' # rest, result = res\<rparr>)
      | Returned rd' res' nxt \<Rightarrow> parse \<lparr>reader = rd', funcs = nxt @ rest, result = res'\<rparr>)"
  by (subst parse.simps) (simp split: outcome.splits)

lemma separator_step_rejects:
  assumes "isSeparatorStep f" "0 \<le> pos rd" and "pos rd < int (length (data rd))"
    and "invalidSeparatorChar (data rd ! nat (pos rd))"
  shows "call f rd res = Threw HeaderParseError (rd\<lparr>pos := pos rd + 1\<rparr>) f"
  using assms(1) readSeparator_invalid [OF assms(2-4)] by (auto simp: isSeparatorStep_def)

lemma header_start:
  "parse (makeDLIDParser \<lparr>data = CHR ''@'' # a # b # c # xs, pos = 0\<rparr>) =
   parse \<lparr>reader = \<lparr>data = CHR ''@'' # a # b # c # xs, pos = 1\<rparr>,
          funcs = [ReadDataElementSeparator, ReadRecordSeparator, ReadSegmentTerminator,
                   ExpectANSI, ReadIin, ReadAamvaVersion, ReadJurisdictionVersion,
                   ReadNumEntries, ParseSubfileDesignatorsFunc, ParseSubfilesFunc],
          result = initialResult\<rparr>"
  by (simp add: makeDLIDParser_def parse_Cons read_one)


lemma parseHeader_M_never_header_error: "fst (parseHeader_M rd) \<noteq> Inl HeaderParseError"
  unfolding parseHeader_M_def
  by (auto split: sum.splits prod.splits option.splits if_splits dest!: read_Inl peek_Inl)

lemma substring_two:
  "0 \<le> i \<Longrightarrow> i + 1 < int (length s) \<Longrightarrow>
   substring s i (i + 2) = [s ! nat i, s ! nat (i + 1)]"
proof -
  assume a: "0 \<le> i" "i + 1 < int (length s)"
  then have c: "clamp_index s i = nat i" "clamp_index s (i + 2) = Suc (Suc (nat i))"
    by (auto simp: clamp_index_def)
  from a have n: "Suc (nat i) < length s" by linarith
  then have "take (Suc (Suc 0)) (drop (nat i) s) = [s ! nat i, s ! Suc (nat i)]"
    by (simp add: take_Suc hd_drop_conv_nth drop_Suc [symmetric] tl_drop drop_tl [symmetric])
  moreover have "nat (i + 1) = Suc (nat i)" using a by linarith
  ultimately show ?thesis using c by (simp add: substring_def Let_def numeral_2_eq_2)
qed

lemma parseHeader_M_rejects_alnum_first:
  assumes "0 \<le> pos rd" and "pos rd + 1 < int (length (data rd))"
    and "isLower (data rd ! nat (pos rd + 1)) \<or> isUpper (data rd ! nat (pos rd + 1)) \<or>
         isDigit (data rd ! nat (pos rd + 1))"
  shows "parseHeader_M rd = (Inl ParseError, rd)"
proof -
  have "peek 2 rd = Inr [data rd ! nat (pos rd), data rd ! nat (pos rd + 1)]"
    using assms(1,2) by (simp add: peek_def avail_def substring_two)
  then show ?thesis
    using assms(3) by (simp add: parseHeader_M_def charAt_def badHeaderPattern_def)
qed

lemma parseRecord_loop_frame:
  "sameSeparators res res0 \<Longrightarrow>
   parseRecord_loop sf res ty recs key copied val =
     (case parseRecord_loop sf res0 ty recs key copied val of
        (Inl e, s, r) \<Rightarrow> (Inl e, s, r)
      | (Inr (r0, nxt), s, r) \<Rightarrow> (Inr (res, nxt), s, r))"
proof (induction sf res0 ty recs key copied val rule: parseRecord_loop.induct)
  case (1 reader result sfType records key copied val)
  show ?case
  proof (cases "peek 1 copied")
    case (Inl e)
    then show ?thesis
      by (subst parseRecord_loop.simps, subst (2) parseRecord_loop.simps) simp
  next
    case (Inr nxt)
    show ?thesis
    proof (cases "nxt = segmentTerminator (header result) \<or> nxt = dataElementSeparator (header result)")
      case True
      with Inr "1.prems" show ?thesis
        by (subst parseRecord_loop.simps, subst (2) parseRecord_loop.simps)
           (auto simp: sameSeparators_def Let_def split: prod.splits sum.splits)
    next
      case False
      show ?thesis
      proof (cases "read 1 copied")
        case (Pair x copied')
        show ?thesis
        proof (cases x)
          case (Inl e)
          with Pair Inr False "1.prems" show ?thesis
            by (subst parseRecord_loop.simps, subst (2) parseRecord_loop.simps)
               (auto simp: sameSeparators_def)
        next
          case (Inr c)
          from "1.IH" [OF \<open>peek 1 copied = Inr nxt\<close> False Pair [symmetric] Inr "1.prems"]
          have ih: "parseRecord_loop reader res sfType records key copied' (val @ nxt) =
             (case parseRecord_loop reader result sfType records key copied' (val @ nxt) of
                (Inl e, s, r) \<Rightarrow> (Inl e, s, r)
              | (Inr (r0, nxt), s, r) \<Rightarrow> (Inr (res, nxt), s, r))"
            by simp
          from Pair Inr \<open>peek 1 copied = Inr nxt\<close> False "1.prems" show ?thesis
            by (subst parseRecord_loop.simps, subst (2) parseRecord_loop.simps)
               (simp add: sameSeparators_def ih)
        qed
      qed
    qed
  qed
qed


lemma parseRecord_frame:
  "sameSeparators res res0 \<Longrightarrow>
   parseRecord sf res ty recs =
     (case parseRecord sf res0 ty recs of
        (Inl e, s, r) \<Rightarrow> (Inl e, s, r)
      | (Inr (r0, nxt), s, r) \<Rightarrow> (Inr (res, nxt), s, r))"
  using parseRecord_loop_frame [of res res0 sf ty recs]
  by (auto simp: parseRecord_def split: prod.splits sum.splits)

lemma maybeParseRecord_frame:
  "sameSeparators res res0 \<Longrightarrow>
   maybeParseRecord sf res ty recs =
     (case maybeParseRecord sf res0 ty recs of
        (Inl e, s) \<Rightarrow> (Inl e, s)
      | (Inr (r0, nxt), s) \<Rightarrow>
          (Inr (if nxt = [] then res\<lparr>subfiles := AList.update ty recs (subfiles res)\<rparr> else res,
                nxt), s))"
  by (auto simp: maybeParseRecord_def sameSeparators_def split: prod.splits sum.splits)

lemma parseRecord_loop_shape:
  "parseRecord_loop sf res ty recs key copied val = (Inr (r, nxt), s, recs') \<Longrightarrow>
   r = res \<and> nxt = [MaybeParseRecordFunc s ty recs']"
  by (auto dest: parseRecord_loop_Inr)

text \<open>What a record step does to the engine, read off a run of the same step alone.\<close>

lemma call_record_step:
  assumes "isRecordStep f" and "sameSeparators res res0"
  shows "(case call f rd0 res0 of
            Threw e rd' f' \<Rightarrow> call f rd res = Threw e rd f' \<and> rd' = rd0 \<and> isRecordStep f' \<and>
                                 stepType f' = stepType f
          | Returned rd' r0 nxt \<Rightarrow>
              rd' = rd0 \<and>
              (if nxt = [] then
                 (\<exists>recs. r0 = res0\<lparr>subfiles := AList.update (stepType f) recs (subfiles res0)\<rparr> \<and>
                    call f rd res =
                      Returned rd (res\<lparr>subfiles := AList.update (stepType f) recs (subfiles res)\<rparr>) [])
               else
                 r0 = res0 \<and> call f rd res = Returned rd res nxt \<and>
                 (\<exists>g. nxt = [g] \<and> isRecordStep g \<and> stepType g = stepType f)))"
proof (cases f)
  case (MaybeParseRecordFunc sf ty recs)
  then show ?thesis
    using maybeParseRecord_frame [OF assms(2), of sf ty recs]
    by (auto simp: maybeParseRecord_def split: prod.splits sum.splits if_splits)
next
  case (ParseRecordFunc sf ty recs)
  then show ?thesis
    using parseRecord_frame [OF assms(2), of sf ty recs]
    by (auto split: prod.splits sum.splits dest!: parseRecord_Inr)
qed (use assms in auto)


lemma record_run:
  "funcs p0 = [f] \<Longrightarrow> isRecordStep f \<Longrightarrow> sameSeparators res (result p0) \<Longrightarrow>
   parse \<lparr>reader = rd, funcs = f # rest, result = res\<rparr> =
     (case parse p0 of
        (Inl e, q0) \<Rightarrow> (Inl e, \<lparr>reader = rd, funcs = funcs q0 @ rest, result = res\<rparr>)
      | (Inr r0, q0) \<Rightarrow>
          parse \<lparr>reader = rd, funcs = rest,
                 result = res\<lparr>subfiles :=
                   AList.update (stepType f) (the (map_of (subfiles r0) (stepType f)))
                     (subfiles res)\<rparr>\<rparr>)"
proof (induction p0 arbitrary: f rule: parse.induct)
  case (1 p)
  note step = call_record_step [OF "1.prems"(2,3), where ?rd0.0 = "reader p" and ?rd = rd]
  show ?case
  proof (cases "call f (reader p) (result p)")
    case (Threw e rd' f')
    with step have c: "call f rd res = Threw e rd f'" by simp
    have "parse p = (Inl e, p\<lparr>reader := rd', funcs := [f']\<rparr>)"
      using "1.prems"(1) Threw by (simp add: parse_Threw)
    then show ?thesis using c by (simp add: parse_Cons)
  next
    case (Returned rd' r0 nxt)
    show ?thesis
    proof (cases "nxt = []")
      case True
      with step Returned obtain recs where
        r0: "r0 = (result p)\<lparr>subfiles := AList.update (stepType f) recs (subfiles (result p))\<rparr>"
        and c: "call f rd res =
                  Returned rd (res\<lparr>subfiles := AList.update (stepType f) recs (subfiles res)\<rparr>) []"
        by auto
      have "parse p = (Inr r0, p\<lparr>reader := rd', result := r0, funcs := []\<rparr>)"
        using "1.prems"(1) Returned True by (simp add: parse_Returned parse_Nil)
      moreover have "map_of (subfiles r0) (stepType f) = Some recs"
        by (simp add: r0 update_conv')
      ultimately show ?thesis using c by (simp add: parse_Cons)
    next
      case False
      with step Returned obtain g where
        r0: "r0 = result p" and c: "call f rd res = Returned rd res [g]"
        and g: "nxt = [g]" "isRecordStep g" "stepType g = stepType f" and rd': "rd' = reader p"
        by auto
      let ?p' = "p\<lparr>reader := rd', result := r0, funcs := nxt @ []\<rparr>"
      have ih0: "parse \<lparr>reader = rd, funcs = g # rest, result = res\<rparr> =
        (case parse ?p' of
           (Inl e, q0) \<Rightarrow> (Inl e, \<lparr>reader = rd, funcs = funcs q0 @ rest, result = res\<rparr>)
         | (Inr r0, q0) \<Rightarrow>
             parse \<lparr>reader = rd, funcs = rest,
                    result = res\<lparr>subfiles :=
                      AList.update (stepType g) (the (map_of (subfiles r0) (stepType g)))
                        (subfiles res)\<rparr>\<rparr>)"
        using "1.IH" [OF "1.prems"(1) Returned, of g] g r0 "1.prems"(3) by simp
      note ih = ih0 [unfolded g(3)]
      have "parse p = parse ?p'"
        using "1.prems"(1) Returned by (simp add: parse_Returned)
      then show ?thesis by (subst parse_Cons) (simp add: c ih)
    qed
  qed
qed

lemma substring_window:
  "substring (pre @ w @ post) (int (length pre)) (int (length pre) + int (length w)) = w"
proof -
  have "clamp_index (pre @ w @ post) (int (length pre)) = length pre"
    and "clamp_index (pre @ w @ post) (int (length pre) + int (length w)) = length pre + length w"
    by (simp_all add: clamp_index_def)
  then show ?thesis by (simp add: substring_def Let_def)
qed

lemma peek_window:
  "data rd = pre @ w @ post \<Longrightarrow>
   peek (int (length w)) \<lparr>data = data rd, pos = int (length pre)\<rparr> = Inr w"
  using substring_window [of pre w post] by (simp add: peek_def avail_def)

lemma parseSubfile_recognized:
  assumes "peek (sd_length sd) \<lparr>data = data rd, pos = sd_offset sd\<rparr> = Inr w"
    and "sd_type sd = ''DL'' \<or> sd_type sd = ''ID''" and "2 \<le> length w"
  shows "call (ParseSubfileFunc sd) rd res =
           Returned rd res [MaybeParseRecordFunc \<lparr>data = w, pos = 2\<rparr> (sd_type sd) []]"
  using assms by (auto simp: parseSubfile_def read_def peek_def avail_def)

lemma parseRecord_loop_A_frame:
  "dataElementSeparator hdr = dataElementSeparator hdr0 \<Longrightarrow>
   segmentTerminator hdr = segmentTerminator hdr0 \<Longrightarrow>
   parseRecord_loop_A hdr copied val = parseRecord_loop_A hdr0 copied val"
proof (induction hdr0 copied val rule: parseRecord_loop_A.induct)
  case (1 hdr0 copied val)
  show ?case
  proof (cases "peek 1 copied")
    case (Inl e)
    then show ?thesis
      by (subst parseRecord_loop_A.simps, subst (2) parseRecord_loop_A.simps) simp
  next
    case (Inr nxt)
    show ?thesis
    proof (cases "nxt = dataElementSeparator hdr0 \<or> nxt = segmentTerminator hdr0")
      case True
      with Inr "1.prems" show ?thesis
        by (subst parseRecord_loop_A.simps, subst (2) parseRecord_loop_A.simps) auto
    next
      case False
      show ?thesis
      proof (cases "read 1 copied")
        case (Pair x copied')
        show ?thesis
        proof (cases x)
          case (Inl e)
          with Pair Inr False "1.prems" show ?thesis
            by (subst parseRecord_loop_A.simps, subst (2) parseRecord_loop_A.simps) auto
        next
          case (Inr c)
          note ih = "1.IH" [OF \<open>peek 1 copied = Inr nxt\<close> False Pair [symmetric] Inr "1.prems"]
          from Pair Inr \<open>peek 1 copied = Inr nxt\<close> False "1.prems" show ?thesis
            by (subst parseRecord_loop_A.simps, subst (2) parseRecord_loop_A.simps)
               (simp add: ih)
        qed
      qed
    qed
  qed
qed

lemma parseRecord_A_frame:
  "dataElementSeparator hdr = dataElementSeparator hdr0 \<Longrightarrow>
   segmentTerminator hdr = segmentTerminator hdr0 \<Longrightarrow>
   parseRecord_A hdr rd = parseRecord_A hdr0 rd"
  using parseRecord_loop_A_frame [of hdr hdr0]
  by (auto simp: parseRecord_A_def split: prod.splits sum.splits)

lemma parseSubfile_loop_A_frame:
  "dataElementSeparator hdr = dataElementSeparator hdr0 \<Longrightarrow>
   segmentTerminator hdr = segmentTerminator hdr0 \<Longrightarrow>
   parseSubfile_loop_A hdr sf recs = parseSubfile_loop_A hdr0 sf recs"
proof (induction hdr0 sf recs rule: parseSubfile_loop_A.induct)
  case (1 hdr0 sf recs)
  note pr = parseRecord_A_frame [OF "1.prems", of sf]
  show ?case
  proof (cases "peek 1 sf")
    case (Inl e)
    then show ?thesis
      by (subst parseSubfile_loop_A.simps, subst (2) parseSubfile_loop_A.simps) simp
  next
    case (Inr nxt)
    show ?thesis
    proof (cases "nxt = segmentTerminator hdr0")
      case True
      with Inr "1.prems" show ?thesis
        by (subst parseSubfile_loop_A.simps, subst (2) parseSubfile_loop_A.simps) simp
    next
      case nst: False
      show ?thesis
      proof (cases "nxt = dataElementSeparator hdr0")
        case True
        show ?thesis
        proof (cases "read 1 sf")
          case (Pair x sf')
          show ?thesis
          proof (cases x)
            case (Inl e)
            with Pair Inr nst True "1.prems" show ?thesis
              by (subst parseSubfile_loop_A.simps, subst (2) parseSubfile_loop_A.simps) simp
          next
            case (Inr c)
            note ih = "1.IH"(1) [OF \<open>peek 1 sf = Inr nxt\<close> nst True Pair [symmetric] Inr "1.prems"]
            from Pair Inr \<open>peek 1 sf = Inr nxt\<close> nst True "1.prems" show ?thesis
              by (subst parseSubfile_loop_A.simps, subst (2) parseSubfile_loop_A.simps)
                 (simp add: ih)
          qed
        qed
      next
        case False
        show ?thesis
        proof (cases "parseRecord_A hdr0 sf")
          case (Pair x sf')
          show ?thesis
          proof (cases x)
            case (Inl e)
            with Pair Inr nst False "1.prems" pr show ?thesis
              by (subst parseSubfile_loop_A.simps, subst (2) parseSubfile_loop_A.simps) simp
          next
            case (Inr kv)
            obtain k v where kv: "kv = (k, v)" by (cases kv)
            note ih = "1.IH"(2) [OF \<open>peek 1 sf = Inr nxt\<close> nst False Pair [symmetric]
                Inr kv [symmetric] "1.prems"]
            from Pair Inr kv \<open>peek 1 sf = Inr nxt\<close> nst False "1.prems" pr show ?thesis
              by (subst parseSubfile_loop_A.simps, subst (2) parseSubfile_loop_A.simps)
                 (simp add: ih)
          qed
        qed
      qed
    qed
  qed
qed

lemma set_substring: "set (substring s a b) \<subseteq> set s"
  by (auto simp: substring_def Let_def dest: in_set_takeD in_set_dropD)

lemma set_update_subset: "set (AList.update k v al) \<subseteq> insert (k, v) (set al)"
  by (induction al) auto

lemma recordsWithin_update:
  "recordsWithin w recs \<Longrightarrow> set k \<subseteq> set w \<Longrightarrow> set v \<subseteq> set w \<Longrightarrow>
   recordsWithin w (AList.update k v recs)"
  using set_update_subset [of k v recs] unfolding recordsWithin_def by fastforce

lemma parseRecord_loop_within:
  "parseRecord_loop sf res ty recs key copied val = (Inr (r, nxt), sf', recs') \<Longrightarrow>
   data copied = data sf \<Longrightarrow> set key \<subseteq> set (data sf) \<Longrightarrow> set val \<subseteq> set (data sf) \<Longrightarrow>
   recordsWithin (data sf) recs \<Longrightarrow>
   data sf' = data sf \<and> recordsWithin (data sf) recs'"
proof (induction sf res ty recs key copied val rule: parseRecord_loop.induct)
  case (1 reader result sfType records key copied val)
  from "1.prems"(1) obtain nxt' where pk: "peek 1 copied = Inr nxt'"
    by (subst (asm) parseRecord_loop.simps) (auto split: sum.splits)
  then have nx: "set nxt' \<subseteq> set (data reader)"
    using set_substring [of "data copied"] "1.prems"(2) by (auto simp: peek_def split: if_splits)
  show ?case
  proof (cases "nxt' = segmentTerminator (header result) \<or> nxt' = dataElementSeparator (header result)")
    case True
    with pk "1.prems" show ?thesis
      by (subst (asm) parseRecord_loop.simps)
         (auto simp: Let_def recordsWithin_update split: prod.splits sum.splits if_splits
            dest!: read_Inr read_Inl)
  next
    case False
    let ?c = "copied\<lparr>pos := pos copied + 1\<rparr>"
    have rd: "read 1 copied = (Inr nxt', ?c)" using pk by (simp add: read_def)
    from False pk rd "1.prems"(1)
    have rec: "parseRecord_loop reader result sfType records key ?c (val @ nxt') =
                 (Inr (r, nxt), sf', recs')"
      by (subst (asm) parseRecord_loop.simps) simp
    show ?thesis
      using "1.IH" [OF pk False rd [symmetric] refl rec] "1.prems"(2-5) nx by simp
  qed
qed

lemma parseRecord_within:
  "parseRecord sf res ty recs = (Inr (r, nxt), sf', recs') \<Longrightarrow> recordsWithin (data sf) recs \<Longrightarrow>
   data sf' = data sf \<and> recordsWithin (data sf) recs'"
proof -
  assume a: "parseRecord sf res ty recs = (Inr (r, nxt), sf', recs')"
    and w: "recordsWithin (data sf) recs"
  from a obtain key copied where rd: "read 3 \<lparr>data = data sf, pos = pos sf\<rparr> = (Inr key, copied)"
    and lp: "parseRecord_loop sf res ty recs key copied [] = (Inr (r, nxt), sf', recs')"
    by (auto simp: parseRecord_def split: prod.splits sum.splits if_splits)
  from rd have "data copied = data sf" and "key = substring (data sf) (pos sf) (pos sf + 3)"
    by (auto dest!: read_Inr)
  then have "data copied = data sf" and "set key \<subseteq> set (data sf)"
    by (simp_all add: set_substring)
  with parseRecord_loop_within [OF lp] w show ?thesis by simp
qed


lemma call_record_within:
  assumes "stepWithin w f" and "call f rd res = Returned rd' r nxt"
  shows "rd' = rd \<and>
         (if nxt = [] then
            (\<exists>recs. r = res\<lparr>subfiles := AList.update (stepType f) recs (subfiles res)\<rparr> \<and>
               recordsWithin w recs)
          else r = res \<and> (\<exists>g. nxt = [g] \<and> stepWithin w g \<and> stepType g = stepType f))"
proof (cases f)
  case (MaybeParseRecordFunc sf ty recs)
  with assms show ?thesis
    by (auto simp: maybeParseRecord_def split: prod.splits sum.splits if_splits)
next
  case (ParseRecordFunc sf ty recs)
  with assms obtain sf' recs' where
    pr: "parseRecord sf res ty recs = (Inr (r, nxt), sf', recs')" and rd': "rd' = rd"
    by (auto split: prod.splits sum.splits)
  from parseRecord_within [OF pr] parseRecord_Inr [OF pr] assms(1) ParseRecordFunc rd'
  show ?thesis by auto
qed (use assms in auto)

lemma record_run_within:
  "funcs p = [f] \<Longrightarrow> stepWithin w f \<Longrightarrow> parse p = (Inr r, q) \<Longrightarrow>
   \<exists>recs. r = (result p)\<lparr>subfiles := AList.update (stepType f) recs (subfiles (result p))\<rparr> \<and>
     recordsWithin w recs"
proof (induction p arbitrary: f rule: parse.induct)
  case (1 p)
  show ?case
  proof (cases "call f (reader p) (result p)")
    case (Threw e rd' f')
    with "1.prems" show ?thesis by (simp add: parse_Threw)
  next
    case (Returned rd' r0 nxt)
    note cw = call_record_within [OF "1.prems"(2) Returned]
    have pp: "parse p = parse (p\<lparr>reader := rd', result := r0, funcs := nxt @ []\<rparr>)"
      using "1.prems"(1) Returned by (simp add: parse_Returned)
    show ?thesis
    proof (cases "nxt = []")
      case True
      with pp "1.prems"(3) have "r = r0" by (simp add: parse_Nil)
      with cw True show ?thesis by auto
    next
      case False
      with cw obtain g where g: "nxt = [g]" "stepWithin w g" "stepType g = stepType f"
        and r0: "r0 = result p" by auto
      from "1.IH" [OF "1.prems"(1) Returned, of g] g pp "1.prems"(3) r0
      show ?thesis by simp
    qed
  qed
qed

lemma call_record_reader:
  assumes "isRecordStep f"
  shows "call f rd' res =
           (case call f rd res of
              Threw e x f' \<Rightarrow> Threw e rd' f'
            | Returned x r nxt \<Rightarrow> Returned rd' r nxt)"
  using assms by (cases f) (auto split: prod.splits sum.splits)

lemma call_record_next:
  assumes "isRecordStep f"
  shows "(case call f rd res of
            Threw e x f' \<Rightarrow> isRecordStep f'
          | Returned x r nxt \<Rightarrow> \<forall>g \<in> set nxt. isRecordStep g)"
  using call_record_step [OF assms, of res res rd rd]
  by (auto simp: sameSeparators_def split: outcome.splits if_splits)

text \<open>A queue of record steps runs the same whatever the shared reader is.\<close>

lemma record_steps_reader:
  "\<forall>f \<in> set (funcs p). isRecordStep f \<Longrightarrow> parse p = (x, q) \<Longrightarrow>
   parse (p\<lparr>reader := rd'\<rparr>) = (x, q\<lparr>reader := rd'\<rparr>)"
proof (induction p arbitrary: x q rule: parse.induct)
  case (1 p)
  show ?case
  proof (cases "funcs p")
    case Nil
    with "1.prems" show ?thesis by (auto simp: parse_Nil)
  next
    case (Cons f rest)
    with "1.prems"(1) have rf: "isRecordStep f" and rr: "\<forall>g \<in> set rest. isRecordStep g"
      by simp_all
    note cr = call_record_reader [OF rf, of rd' "result p" "reader p"]
    note cn = call_record_next [OF rf, of "reader p" "result p"]
    show ?thesis
    proof (cases "call f (reader p) (result p)")
      case (Threw e y f')
      then have "call f rd' (result p) = Threw e rd' f'" using cr by simp
      moreover have "y = reader p"
        using call_record_step [OF rf, of "result p" "result p" "reader p" "reader p"] Threw
        by (simp add: sameSeparators_def)
      ultimately show ?thesis
        using Cons Threw "1.prems"(2)
        by (auto simp: parse_Threw [of p f rest] parse_Threw [of "p\<lparr>reader := rd'\<rparr>" f rest])
    next
      case (Returned y r nxt)
      then have c': "call f rd' (result p) = Returned rd' r nxt" using cr by simp
      have y: "y = reader p"
        using call_record_step [OF rf, of "result p" "result p" "reader p" "reader p"] Returned
        by (simp add: sameSeparators_def)
      let ?p' = "p\<lparr>reader := y, result := r, funcs := nxt @ rest\<rparr>"
      have all: "\<forall>g \<in> set (funcs ?p'). isRecordStep g" using cn Returned rr by auto
      have "parse ?p' = (x, q)"
        using Cons Returned "1.prems"(2) by (simp add: parse_Returned)
      from "1.IH" [OF Cons Returned all this]
      have ih: "parse (?p'\<lparr>reader := rd'\<rparr>) = (x, q\<lparr>reader := rd'\<rparr>)" .
      have e: "p\<lparr>reader := rd', reader := rd', result := r, funcs := nxt @ rest\<rparr> =
               ?p'\<lparr>reader := rd'\<rparr>"
        by simp
      have "parse (p\<lparr>reader := rd'\<rparr>) = parse (?p'\<lparr>reader := rd'\<rparr>)"
        using Cons c' parse_Returned [of "p\<lparr>reader := rd'\<rparr>" f rest rd' r nxt]
        unfolding e by simp
      from this ih show ?thesis by (rule trans)
    qed
  qed
qed


lemma substring_take_drop:
  "0 \<le> a \<Longrightarrow> 0 \<le> n \<Longrightarrow> a + n \<le> int (length s) \<Longrightarrow>
   substring s a (a + n) = take (nat n) (drop (nat a) s)"
proof -
  assume h: "0 \<le> a" "0 \<le> n" "a + n \<le> int (length s)"
  then have "clamp_index s a = nat a" and "clamp_index s (a + n) = nat a + nat n"
    by (auto simp: clamp_index_def)
  then show ?thesis by (simp add: substring_def Let_def)
qed

lemma windows_agree:
  assumes "0 \<le> a" "0 \<le> n" "a + n \<le> int (length s)" "a + n \<le> int (length t)"
    and "\<forall>i. a \<le> i \<and> i < a + n \<longrightarrow> s ! nat i = t ! nat i"
  shows "take (nat n) (drop (nat a) s) = take (nat n) (drop (nat a) t)"
proof (rule nth_equalityI)
  show "length (take (nat n) (drop (nat a) s)) = length (take (nat n) (drop (nat a) t))"
    using assms(1-4) by simp
next
  fix i assume "i < length (take (nat n) (drop (nat a) s))"
  then have i: "i < nat n" by simp
  then have "a \<le> a + int i \<and> a + int i < a + n" by linarith
  with assms(5) have "s ! nat (a + int i) = t ! nat (a + int i)" by blast
  moreover have "nat (a + int i) = nat a + i" using assms(1) by linarith
  ultimately show "take (nat n) (drop (nat a) s) ! i = take (nat n) (drop (nat a) t) ! i"
    using i assms(1-4) by simp
qed

lemma subfile_run_reader:
  assumes pk: "peek (sd_length sd) \<lparr>data = data rd1, pos = sd_offset sd\<rparr> =
               peek (sd_length sd) \<lparr>data = data rd2, pos = sd_offset sd\<rparr>"
    and run: "parse \<lparr>reader = rd1, funcs = [ParseSubfileFunc sd], result = res\<rparr> = (x, q)"
  shows "parse \<lparr>reader = rd2, funcs = [ParseSubfileFunc sd], result = res\<rparr> =
           (x, q\<lparr>reader := rd2\<rparr>)"
proof -
  have ps: "parseSubfile rd2 res sd = parseSubfile rd1 res sd"
    using pk by (simp add: parseSubfile_def)
  show ?thesis
  proof (cases "parseSubfile rd1 res sd")
    case (Inl e)
    with ps run show ?thesis by (auto simp: parse_Cons)
  next
    case (Inr rn)
    obtain r nxt where rn: "rn = (r, nxt)" by (cases rn)
    from Inr rn have r: "r = res" and nx: "\<forall>g \<in> set nxt. isRecordStep g"
      by (auto dest!: parseSubfile_Inr)
    from Inr rn run have "parse \<lparr>reader = rd1, funcs = nxt, result = res\<rparr> = (x, q)"
      by (simp add: parse_Cons r)
    from record_steps_reader [OF _ this, of rd2] nx
    have "parse \<lparr>reader = rd2, funcs = nxt, result = res\<rparr> = (x, q\<lparr>reader := rd2\<rparr>)"
      by simp
    with Inr rn ps r show ?thesis by (simp add: parse_Cons)
  qed
qed

lemma subfile_run_within:
  assumes pk: "peek (sd_length sd) \<lparr>data = data rd, pos = sd_offset sd\<rparr> = Inr w"
    and ty: "sd_type sd = ''DL'' \<or> sd_type sd = ''ID''"
    and run: "parse \<lparr>reader = rd, funcs = [ParseSubfileFunc sd], result = res\<rparr> = (Inr r, q)"
  shows "\<exists>recs. r = res\<lparr>subfiles := AList.update (sd_type sd) recs (subfiles res)\<rparr> \<and>
           recordsWithin w recs"
proof (cases "read 2 \<lparr>data = w, pos = 0\<rparr>")
  case (Pair y sf)
  show ?thesis
  proof (cases y)
    case (Inl e)
    with Pair pk ty run show ?thesis by (simp add: parse_Cons parseSubfile_def)
  next
    case (Inr s)
    with Pair have sf: "data sf = w" by (auto dest!: read_Inr)
    from Inr Pair pk ty run
    have "parse \<lparr>reader = rd, funcs = [MaybeParseRecordFunc sf (sd_type sd) []], result = res\<rparr> =
            (Inr r, q)"
      by (simp add: parse_Cons parseSubfile_def)
    from record_run_within [OF _ _ this, of _ w] sf show ?thesis
      by (simp add: recordsWithin_def)
  qed
qed

lemma sameRest_avail: "sameRest r1 r2 \<Longrightarrow> avail r1 = avail r2"
proof -
  assume a: "sameRest r1 r2"
  then have eq: "drop (nat (pos r1)) (data r1) = drop (nat (pos r2)) (data r2)"
    and b: "0 \<le> pos r1" "pos r1 \<le> int (length (data r1))"
           "0 \<le> pos r2" "pos r2 \<le> int (length (data r2))"
    by (simp_all add: sameRest_def)
  have "length (drop (nat (pos r1)) (data r1)) = length (drop (nat (pos r2)) (data r2))"
    by (simp only: eq)
  then have "length (data r1) - nat (pos r1) = length (data r2) - nat (pos r2)"
    by simp
  with b show ?thesis unfolding avail_def by linarith
qed

lemma sameRest_peek: "sameRest r1 r2 \<Longrightarrow> 0 \<le> n \<Longrightarrow> peek n r1 = peek n r2"
proof -
  assume a: "sameRest r1 r2" and n: "0 \<le> n"
  note av = sameRest_avail [OF a]
  show ?thesis
  proof (cases "n > avail r1")
    case True
    with av show ?thesis by (simp add: peek_def)
  next
    case False
    from a have b: "0 \<le> pos r1" "0 \<le> pos r2"
      and eq: "drop (nat (pos r1)) (data r1) = drop (nat (pos r2)) (data r2)"
      by (simp_all add: sameRest_def)
    from False have "pos r1 + n \<le> int (length (data r1))" by (simp add: avail_def)
    with b n have s1: "substring (data r1) (pos r1) (pos r1 + n) =
        take (nat n) (drop (nat (pos r1)) (data r1))"
      by (intro substring_take_drop)
    from False av have "pos r2 + n \<le> int (length (data r2))" by (simp add: avail_def)
    with b n have s2: "substring (data r2) (pos r2) (pos r2 + n) =
        take (nat n) (drop (nat (pos r2)) (data r2))"
      by (intro substring_take_drop)
    from False av show ?thesis by (simp add: peek_def s1 s2 eq)
  qed
qed

lemma sameRest_advance:
  "sameRest r1 r2 \<Longrightarrow> 0 \<le> n \<Longrightarrow> n \<le> avail r1 \<Longrightarrow>
   sameRest (r1\<lparr>pos := pos r1 + n\<rparr>) (r2\<lparr>pos := pos r2 + n\<rparr>)"
proof -
  assume a: "sameRest r1 r2" and n: "0 \<le> n" "n \<le> avail r1"
  note av = sameRest_avail [OF a]
  from a have eq: "drop (nat (pos r1)) (data r1) = drop (nat (pos r2)) (data r2)"
    and b: "0 \<le> pos r1" "pos r1 \<le> int (length (data r1))"
           "0 \<le> pos r2" "pos r2 \<le> int (length (data r2))"
    by (simp_all add: sameRest_def)
  have "drop (nat n) (drop (nat (pos r1)) (data r1)) =
        drop (nat n) (drop (nat (pos r2)) (data r2))"
    by (simp only: eq)
  with b n have e: "drop (nat (pos r1 + n)) (data r1) = drop (nat (pos r2 + n)) (data r2)"
    by (simp add: nat_add_distrib add.commute)
  from b n av have "pos r1 + n \<le> int (length (data r1))" "pos r2 + n \<le> int (length (data r2))"
    by (simp_all add: avail_def)
  with b n e show ?thesis by (simp add: sameRest_def)
qed

lemma sameRest_read:
  "sameRest r1 r2 \<Longrightarrow> 0 \<le> n \<Longrightarrow>
   fst (read n r1) = fst (read n r2) \<and> sameRest (snd (read n r1)) (snd (read n r2))"
  using sameRest_peek [of r1 r2 n] sameRest_advance [of r1 r2 n]
  by (auto simp: read_def peek_def split: sum.splits if_splits)

lemma parseRecord_loop_A_shift:
  "sameRest c1 c2 \<Longrightarrow>
   (case parseRecord_loop_A hdr c1 val of
      Inl e \<Rightarrow> parseRecord_loop_A hdr c2 val = Inl e
    | Inr (v, c1') \<Rightarrow>
        (\<exists>c2'. parseRecord_loop_A hdr c2 val = Inr (v, c2') \<and> sameRest c1' c2'))"
proof (induction hdr c1 val arbitrary: c2 rule: parseRecord_loop_A.induct)
  case (1 hdr c1 val)
  note pk = sameRest_peek [OF "1.prems", of 1, simplified]
  show ?case
  proof (cases "peek 1 c1")
    case (Inl e)
    have e1: "parseRecord_loop_A hdr c1 val = Inl e"
      using Inl by (subst parseRecord_loop_A.simps) simp
    from Inl pk have "peek 1 c2 = Inl e" by simp
    then have e2: "parseRecord_loop_A hdr c2 val = Inl e"
      by (subst parseRecord_loop_A.simps) simp
    show ?thesis by (simp add: e1 e2)
  next
    case (Inr nxt)
    show ?thesis
    proof (cases "nxt = dataElementSeparator hdr \<or> nxt = segmentTerminator hdr")
      case True
      have e1: "parseRecord_loop_A hdr c1 val = Inr (val, c1)"
        using Inr True by (subst parseRecord_loop_A.simps) auto
      from Inr pk have "peek 1 c2 = Inr nxt" by simp
      with True have e2: "parseRecord_loop_A hdr c2 val = Inr (val, c2)"
        by (subst parseRecord_loop_A.simps) auto
      from "1.prems" show ?thesis by (simp add: e1 e2)
    next
      case False
      from Inr have rd1: "read 1 c1 = (Inr nxt, c1\<lparr>pos := pos c1 + 1\<rparr>)"
        by (simp add: read_def)
      from Inr pk have rd2: "read 1 c2 = (Inr nxt, c2\<lparr>pos := pos c2 + 1\<rparr>)"
        by (simp add: read_def)
      from Inr have "1 \<le> avail c1" by (auto simp: peek_def split: if_splits)
      then have sr: "sameRest (c1\<lparr>pos := pos c1 + 1\<rparr>) (c2\<lparr>pos := pos c2 + 1\<rparr>)"
        using sameRest_advance [OF "1.prems", of 1] by simp
      have e1: "parseRecord_loop_A hdr c1 val =
                parseRecord_loop_A hdr (c1\<lparr>pos := pos c1 + 1\<rparr>) (val @ nxt)"
        using Inr False rd1 by (subst parseRecord_loop_A.simps) simp
      have e2: "parseRecord_loop_A hdr c2 val =
                parseRecord_loop_A hdr (c2\<lparr>pos := pos c2 + 1\<rparr>) (val @ nxt)"
        using Inr pk False rd2 by (subst parseRecord_loop_A.simps) simp
      from "1.IH" [OF Inr False rd1 [symmetric] refl sr] show ?thesis
        by (simp only: e1 e2)
    qed
  qed
qed

lemma parseRecord_A_shift:
  assumes "sameRest r1 r2"
  shows "fst (parseRecord_A hdr r1) = fst (parseRecord_A hdr r2) \<and>
         sameRest (snd (parseRecord_A hdr r1)) (snd (parseRecord_A hdr r2))"
proof -
  let ?c1 = "\<lparr>data = data r1, pos = pos r1\<rparr>" and ?c2 = "\<lparr>data = data r2, pos = pos r2\<rparr>"
  have s0: "sameRest ?c1 ?c2" using assms by (simp add: sameRest_def)
  note rd = sameRest_read [OF s0, of 3, simplified]
  show ?thesis
  proof (cases "read 3 ?c1")
    case (Pair x c1)
    obtain y c2 where p2: "read 3 ?c2 = (y, c2)" by (cases "read 3 ?c2")
    from rd Pair p2 have xy: "y = x" and s1: "sameRest c1 c2" by simp_all
    show ?thesis
    proof (cases x)
      case (Inl e)
      with Pair p2 xy assms show ?thesis by (simp add: parseRecord_A_def)
    next
      case (Inr key)
      show ?thesis
      proof (cases "recordKeyPattern key")
        case False
        with Inr Pair p2 xy assms show ?thesis by (simp add: parseRecord_A_def)
      next
        case True
        note sh = parseRecord_loop_A_shift [OF s1, of hdr "[]"]
        show ?thesis
        proof (cases "parseRecord_loop_A hdr c1 []")
          case (Inl e)
          with sh Inr Pair p2 xy True assms show ?thesis by (simp add: parseRecord_A_def)
        next
          case (Inr vc)
          obtain v c1' where vc: "vc = (v, c1')" by (cases vc)
          with sh Inr obtain c2' where l2: "parseRecord_loop_A hdr c2 [] = Inr (v, c2')"
            and s2: "sameRest c1' c2'" by auto
          from Pair \<open>x = Inr key\<close> have "data c1 = data r1"
            by (auto simp: read_def split: sum.splits)
          with parseRecord_loop_A_pos Inr vc have d1: "data c1' = data r1" by fastforce
          from p2 xy \<open>x = Inr key\<close> have "data c2 = data r2"
            by (auto simp: read_def split: sum.splits)
          with parseRecord_loop_A_pos [OF l2] have d2: "data c2' = data r2" by simp
          from s2 d1 d2 have "sameRest (r1\<lparr>pos := pos c1'\<rparr>) (r2\<lparr>pos := pos c2'\<rparr>)"
            by (simp add: sameRest_def)
          with Inr vc l2 Pair p2 xy True \<open>x = Inr key\<close> show ?thesis
            by (simp add: parseRecord_A_def)
        qed
      qed
    qed
  qed
qed

lemma parseSubfile_loop_A_shift:
  "sameRest r1 r2 \<Longrightarrow>
   fst (parseSubfile_loop_A hdr r1 recs) = fst (parseSubfile_loop_A hdr r2 recs)"
proof (induction hdr r1 recs arbitrary: r2 rule: parseSubfile_loop_A.induct)
  case (1 hdr r1 recs)
  note pk = sameRest_peek [OF "1.prems", of 1, simplified]
  show ?case
  proof (cases "peek 1 r1")
    case (Inl e)
    have e1: "fst (parseSubfile_loop_A hdr r1 recs) = Inl e"
      using Inl by (subst parseSubfile_loop_A.simps) simp
    from Inl pk have "peek 1 r2 = Inl e" by simp
    then have e2: "fst (parseSubfile_loop_A hdr r2 recs) = Inl e"
      by (subst parseSubfile_loop_A.simps) simp
    show ?thesis by (simp add: e1 e2)
  next
    case (Inr nxt)
    from Inr have rd1: "read 1 r1 = (Inr nxt, r1\<lparr>pos := pos r1 + 1\<rparr>)"
      by (simp add: read_def)
    from Inr pk have rd2: "read 1 r2 = (Inr nxt, r2\<lparr>pos := pos r2 + 1\<rparr>)"
      by (simp add: read_def)
    from Inr have "1 \<le> avail r1" by (auto simp: peek_def split: if_splits)
    then have sr: "sameRest (r1\<lparr>pos := pos r1 + 1\<rparr>) (r2\<lparr>pos := pos r2 + 1\<rparr>)"
      using sameRest_advance [OF "1.prems", of 1] by simp
    show ?thesis
    proof (cases "nxt = segmentTerminator hdr")
      case True
      have e1: "fst (parseSubfile_loop_A hdr r1 recs) = Inr recs"
        using Inr True rd1 by (subst parseSubfile_loop_A.simps) simp
      from Inr pk have "peek 1 r2 = Inr nxt" by simp
      with True rd2 have e2: "fst (parseSubfile_loop_A hdr r2 recs) = Inr recs"
        by (subst parseSubfile_loop_A.simps) simp
      show ?thesis by (simp add: e1 e2)
    next
      case nst: False
      show ?thesis
      proof (cases "nxt = dataElementSeparator hdr")
        case True
        have e1: "parseSubfile_loop_A hdr r1 recs =
                  parseSubfile_loop_A hdr (r1\<lparr>pos := pos r1 + 1\<rparr>) recs"
          using Inr nst True rd1 by (subst parseSubfile_loop_A.simps) simp
        have e2: "parseSubfile_loop_A hdr r2 recs =
                  parseSubfile_loop_A hdr (r2\<lparr>pos := pos r2 + 1\<rparr>) recs"
          using Inr pk nst True rd2 by (subst parseSubfile_loop_A.simps) simp
        from "1.IH"(1) [OF Inr nst True rd1 [symmetric] refl sr] show ?thesis
          by (simp only: e1 e2)
      next
        case False
        note pr = parseRecord_A_shift [OF "1.prems", of hdr]
        show ?thesis
        proof (cases "parseRecord_A hdr r1")
          case (Pair x s1)
          obtain y s2 where p2: "parseRecord_A hdr r2 = (y, s2)" by (cases "parseRecord_A hdr r2")
          from pr Pair p2 have xy: "y = x" and ss: "sameRest s1 s2" by simp_all
          show ?thesis
          proof (cases x)
            case (Inl e)
            have e1: "fst (parseSubfile_loop_A hdr r1 recs) = Inl e"
              using \<open>peek 1 r1 = Inr nxt\<close> nst False Pair Inl
              by (subst parseSubfile_loop_A.simps) simp
            have e2: "fst (parseSubfile_loop_A hdr r2 recs) = Inl e"
              using \<open>peek 1 r1 = Inr nxt\<close> pk nst False p2 xy Inl
              by (subst parseSubfile_loop_A.simps) simp
            show ?thesis by (simp add: e1 e2)
          next
            case (Inr kv)
            obtain k v where kv: "kv = (k, v)" by (cases kv)
            have e1: "parseSubfile_loop_A hdr r1 recs =
                      parseSubfile_loop_A hdr s1 (AList.update k v recs)"
              using \<open>peek 1 r1 = Inr nxt\<close> nst False Pair Inr kv
              by (subst parseSubfile_loop_A.simps) simp
            have e2: "parseSubfile_loop_A hdr r2 recs =
                      parseSubfile_loop_A hdr s2 (AList.update k v recs)"
              using \<open>peek 1 r1 = Inr nxt\<close> pk nst False p2 xy Inr kv
              by (subst parseSubfile_loop_A.simps) simp
            from "1.IH"(2) [OF \<open>peek 1 r1 = Inr nxt\<close> nst False Pair [symmetric] Inr
                 kv [symmetric] ss]
            show ?thesis by (simp only: e1 e2)
          qed
        qed
      qed
    qed
  qed
qed

lemma parseSubfile_loop_A_skip:
  "peek 1 sf = Inr (dataElementSeparator hdr) \<Longrightarrow>
   dataElementSeparator hdr \<noteq> segmentTerminator hdr \<Longrightarrow>
   parseSubfile_loop_A hdr sf recs = parseSubfile_loop_A hdr (sf\<lparr>pos := pos sf + 1\<rparr>) recs"
  by (subst parseSubfile_loop_A.simps) (simp add: read_def)

lemma parseSubfile_A_leading:
  assumes ty: "length ty = 2" and des: "dataElementSeparator hdr = [d]"
    and ne: "[d] \<noteq> segmentTerminator hdr"
    and d1: "data rd1 = pre1 @ ty @ d # body @ post1"
    and d2: "data rd2 = pre2 @ ty @ body @ post2"
  shows "parseSubfile_A hdr
           \<lparr>sd_type = t, sd_offset = int (length pre1), sd_length = int (length body) + 3\<rparr> rd1 =
         parseSubfile_A hdr
           \<lparr>sd_type = t, sd_offset = int (length pre2), sd_length = int (length body) + 2\<rparr> rd2"
proof -
  let ?w1 = "ty @ d # body" and ?w2 = "ty @ body"
  from d1 have "data rd1 = pre1 @ ?w1 @ post1" by simp
  from peek_window [OF this] ty
  have p1: "peek (int (length body) + 3) \<lparr>data = data rd1, pos = int (length pre1)\<rparr> = Inr ?w1"
    by (simp add: add.commute)
  from d2 have "data rd2 = pre2 @ ?w2 @ post2" by simp
  from peek_window [OF this] ty
  have p2: "peek (int (length body) + 2) \<lparr>data = data rd2, pos = int (length pre2)\<rparr> = Inr ?w2"
    by (simp add: add.commute)
  have s1: "substring ?w1 0 2 = ty"
    using substring_window [of "[]" ty "d # body"] ty by simp
  have s2: "substring ?w2 0 2 = ty"
    using substring_window [of "[]" ty body] ty by simp
  have r1: "read 2 \<lparr>data = ?w1, pos = 0\<rparr> = (Inr ty, \<lparr>data = ?w1, pos = 2\<rparr>)"
    using ty s1 by (simp add: read_def peek_def avail_def)
  have r2: "read 2 \<lparr>data = ?w2, pos = 0\<rparr> = (Inr ty, \<lparr>data = ?w2, pos = 2\<rparr>)"
    using ty s2 by (simp add: read_def peek_def avail_def)
  have "substring ?w1 2 (2 + 1) = take (nat 1) (drop (nat 2) ?w1)"
    using ty by (intro substring_take_drop) simp_all
  with ty have "peek 1 \<lparr>data = ?w1, pos = 2\<rparr> = Inr [d]"
    by (simp add: peek_def avail_def)
  with des have pk: "peek 1 \<lparr>data = ?w1, pos = 2\<rparr> = Inr (dataElementSeparator hdr)"
    by simp
  from ne des have ne': "dataElementSeparator hdr \<noteq> segmentTerminator hdr" by simp
  have sk: "parseSubfile_loop_A hdr \<lparr>data = ?w1, pos = 2\<rparr> [] =
            parseSubfile_loop_A hdr \<lparr>data = ?w1, pos = 3\<rparr> []"
    using parseSubfile_loop_A_skip [OF pk ne', of "[]"] by simp
  have "sameRest \<lparr>data = ?w1, pos = 3\<rparr> \<lparr>data = ?w2, pos = 2\<rparr>"
    using ty by (simp add: sameRest_def)
  from parseSubfile_loop_A_shift [OF this, of hdr "[]"]
  have "fst (parseSubfile_loop_A hdr \<lparr>data = ?w1, pos = 2\<rparr> []) =
        fst (parseSubfile_loop_A hdr \<lparr>data = ?w2, pos = 2\<rparr> [])"
    by (simp only: sk)
  then show ?thesis by (simp add: parseSubfile_A_def p1 p2 r1 r2)
qed

lemma recognizedOnly_update:
  "recognizedOnly sfs \<Longrightarrow> ty = ''DL'' \<or> ty = ''ID'' \<Longrightarrow>
   recognizedOnly (AList.update ty recs sfs)"
  by (auto simp: recognizedOnly_def dom_update)

lemma call_recognized:
  assumes "stepRecognized f" and "recognizedOnly (subfiles res)"
  shows "(case call f rd res of
            Threw e rd' f' \<Rightarrow> stepRecognized f'
          | Returned rd' r nxt \<Rightarrow>
              recognizedOnly (subfiles r) \<and> (\<forall>g \<in> set nxt. stepRecognized g))"
proof (cases f)
  case (MaybeParseRecordFunc sf ty recs)
  with assms show ?thesis
    by (auto simp: maybeParseRecord_def recognizedOnly_update
        split: sum.splits prod.splits if_splits)
next
  case (ParseRecordFunc sf ty recs)
  with assms show ?thesis
    by (auto simp: parseRecord_def split: sum.splits prod.splits if_splits
        dest!: parseRecord_loop_shape)
next
  case (ParseSubfileFunc sd)
  with assms show ?thesis
    by (auto simp: parseSubfile_def split: sum.splits prod.splits if_splits)
next
  case ParseSubfileDesignatorFunc
  with assms show ?thesis
    by (auto simp: parseSubfileDesignator_def
        split: sum.splits prod.splits option.splits if_splits)
qed (use assms in \<open>auto split: sum.splits prod.splits option.splits if_splits\<close>)

lemma parse_recognized:
  "\<forall>f \<in> set (funcs p). stepRecognized f \<Longrightarrow> recognizedOnly (subfiles (result p)) \<Longrightarrow>
   recognizedOnly (subfiles (result (snd (parse p)))) \<and>
   (\<forall>r. fst (parse p) = Inr r \<longrightarrow> recognizedOnly (subfiles r))"
proof (induction p rule: parse.induct)
  case (1 p)
  show ?case
  proof (cases "funcs p")
    case Nil
    with "1.prems" show ?thesis by (simp add: parse_Nil)
  next
    case (Cons cur rest)
    with "1.prems" have c: "stepRecognized cur" and r: "\<forall>f \<in> set rest. stepRecognized f"
      by simp_all
    note cr = call_recognized [OF c "1.prems"(2), of "reader p"]
    show ?thesis
    proof (cases "call cur (reader p) (result p)")
      case (Threw e rd cur')
      with cr "1.prems" show ?thesis by (simp add: parse_Threw [OF Cons Threw])
    next
      case (Returned rd res nxt)
      with cr r have "\<forall>f \<in> set (funcs (p\<lparr>reader := rd, result := res, funcs := nxt @ rest\<rparr>)).
                        stepRecognized f"
        and "recognizedOnly (subfiles (result (p\<lparr>reader := rd, result := res, funcs := nxt @ rest\<rparr>)))"
        by auto
      from "1.IH" [OF Cons Returned this] show ?thesis
        by (simp add: parse_Returned [OF Cons Returned])
    qed
  qed
qed

lemma unrecognized_step:
  assumes "sd_type sd \<noteq> ''DL''" and "sd_type sd \<noteq> ''ID''"
  shows "parse \<lparr>reader = rd, funcs = ParseSubfileFunc sd # rest, result = res\<rparr> =
           (if sd_length sd \<le> int (length (data rd)) - sd_offset sd
            then parse \<lparr>reader = rd, funcs = rest, result = res\<rparr>
            else (Inl EOF, \<lparr>reader = rd, funcs = ParseSubfileFunc sd # rest, result = res\<rparr>))"
  using assms by (simp add: parse_Cons parseSubfile_def peek_def avail_def)


lemma unrecognized_step_A:
  assumes "sd_type sd \<noteq> ''DL''" and "sd_type sd \<noteq> ''ID''"
  shows "step_A (SubfileStep_A sd) p =
           (if sd_length sd \<le> int (length (data (reader_A p))) - sd_offset sd
            then (None, p\<lparr>subfiles_A := AList.update (sd_type sd) [] (subfiles_A p)\<rparr>)
            else (Some EOF, p))"
  using assms by (simp add: peek_def avail_def)

lemma append_A_failed: "error_A p \<noteq> None \<Longrightarrow> append_A d p = (False, p)"
  by (simp add: append_A_def)

lemma feed_A_failed: "error_A p \<noteq> None \<Longrightarrow> feed_A ds p = p"
  by (induction ds) (simp_all add: feed_A_def append_A_failed)

lemma updateParse_loop_A_latch:
  "\<not> done_A p \<Longrightarrow> error_A p = None \<Longrightarrow> updateParseOnce_A p = (Some e, p') \<Longrightarrow> e \<noteq> EOF \<Longrightarrow>
   updateParse_loop_A p = (False, p'\<lparr>error_A := Some e\<rparr>)"
  by (subst updateParse_loop_A.simps) simp

lemma updateParse_loop_A_False:
  "updateParse_loop_A p = (False, q) \<Longrightarrow> done_A q \<or> error_A q \<noteq> None"
proof (induction p rule: updateParse_loop_A.induct)
  case (1 p)
  show ?case
  proof (cases "\<not> done_A p \<and> error_A p = None")
    case False
    with "1.prems" show ?thesis by (subst (asm) updateParse_loop_A.simps) auto
  next
    case True
    show ?thesis
    proof (cases "updateParseOnce_A p")
      case (Pair x p')
      show ?thesis
      proof (cases x)
        case None
        with True Pair "1.prems" have "updateParse_loop_A p' = (False, q)"
          by (subst (asm) updateParse_loop_A.simps) simp
        from "1.IH" [OF True Pair [symmetric] None this] show ?thesis .
      next
        case (Some e)
        with True Pair "1.prems" show ?thesis
          by (subst (asm) updateParse_loop_A.simps) (auto split: if_splits)
      qed
    qed
  qed
qed

lemma append_A_False:
  "append_A d p = (False, q) \<Longrightarrow> done_A q \<or> error_A q \<noteq> None"
  by (auto simp: append_A_def updateParse_A_def split: if_splits dest: updateParse_loop_A_False)



























section \<open>The claims\<close>

text \<open>
  C2 (step atomicity on insufficient data). Whatever the state, a step that raises
  \<open>EOF\<close> leaves the shared reader where it was and the closure as it was, so
  \<^verbatim>\<open>parse()\<close> returns the parser unchanged: same result, the failed step still first,
  same cursor. A designator step that returns has advanced the cursor by exactly 10; one
  that throws, whatever the error, has not moved it.
\<close>

theorem C2_step_atomic_on_insufficient_data:
  "(call f rd res = Threw EOF rd' f' \<longrightarrow> rd' = rd \<and> f' = f) \<and>
   (funcs p = cur # rest \<and> call cur (reader p) (result p) = Threw EOF rd1 cur1 \<longrightarrow>
      parse p = (Inl EOF, p)) \<and>
   (call ParseSubfileDesignatorFunc rd res = Returned rd2 res2 nxt \<longrightarrow>
      rd2 = rd\<lparr>pos := pos rd + 10\<rparr>) \<and>
   (call ParseSubfileDesignatorFunc rd res = Threw e rd3 f3 \<longrightarrow>
      rd3 = rd \<and> f3 = ParseSubfileDesignatorFunc)"
proof (intro conjI impI)
  assume "call f rd res = Threw EOF rd' f'"
  then show "rd' = rd" and "f' = f" by (auto dest: call_Threw_EOF)
next
  assume a: "funcs p = cur # rest \<and> call cur (reader p) (result p) = Threw EOF rd1 cur1"
  then have "rd1 = reader p \<and> cur1 = cur" by (auto dest: call_Threw_EOF)
  with a show "parse p = (Inl EOF, p)" by (simp add: parse_Threw)
next
  assume "call ParseSubfileDesignatorFunc rd res = Returned rd2 res2 nxt"
  then show "rd2 = rd\<lparr>pos := pos rd + 10\<rparr>"
    unfolding parseSubfileDesignator_def call.simps SUBFILE_DESIGNATOR_SIZE_def
    by (auto split: prod.splits sum.splits option.splits dest!: read_Inr)
next
  assume "call ParseSubfileDesignatorFunc rd res = Threw e rd3 f3"
  then show "rd3 = rd" and "f3 = ParseSubfileDesignatorFunc"
    by (auto split: prod.splits sum.splits dest!: parseSubfileDesignator_Inl)
qed

theorem C2_witness:
  "call ReadDataElementSeparator \<lparr>data = ''@'', pos = 1\<rparr> initialResult =
     Threw EOF \<lparr>data = ''@'', pos = 1\<rparr> ReadDataElementSeparator \<and>
   parse \<lparr>reader = \<lparr>data = ''@'', pos = 1\<rparr>,
          funcs = [ReadDataElementSeparator, ReadRecordSeparator], result = initialResult\<rparr> =
     (Inl EOF, \<lparr>reader = \<lparr>data = ''@'', pos = 1\<rparr>,
          funcs = [ReadDataElementSeparator, ReadRecordSeparator], result = initialResult\<rparr>) \<and>
   call ParseSubfileDesignatorFunc \<lparr>data = ''DL00410277ZV'', pos = 0\<rparr> initialResult =
     Returned \<lparr>data = ''DL00410277ZV'', pos = 10\<rparr>
       (initialResult\<lparr>subfileDesignators :=
          [\<lparr>sd_type = ''DL'', sd_offset = 41, sd_length = 277\<rparr>]\<rparr>) [] \<and>
   call ParseSubfileDesignatorFunc \<lparr>data = ''DL004102'', pos = 0\<rparr> initialResult =
     Threw EOF \<lparr>data = ''DL004102'', pos = 0\<rparr> ParseSubfileDesignatorFunc \<and>
   call ParseSubfileDesignatorFunc \<lparr>data = ''DLxxxx0277ZV'', pos = 0\<rparr> initialResult =
     Threw ParseError \<lparr>data = ''DLxxxx0277ZV'', pos = 0\<rparr> ParseSubfileDesignatorFunc"
proof -
  have h1: "call ReadDataElementSeparator \<lparr>data = ''@'', pos = 1\<rparr> initialResult =
     Threw EOF \<lparr>data = ''@'', pos = 1\<rparr> ReadDataElementSeparator"
    by code_simp
  have h2: "call ParseSubfileDesignatorFunc \<lparr>data = ''DL00410277ZV'', pos = 0\<rparr> initialResult =
     Returned \<lparr>data = ''DL00410277ZV'', pos = 10\<rparr>
       (initialResult\<lparr>subfileDesignators :=
          [\<lparr>sd_type = ''DL'', sd_offset = 41, sd_length = 277\<rparr>]\<rparr>) []"
    by code_simp
  have h3: "call ParseSubfileDesignatorFunc \<lparr>data = ''DL004102'', pos = 0\<rparr> initialResult =
     Threw EOF \<lparr>data = ''DL004102'', pos = 0\<rparr> ParseSubfileDesignatorFunc"
    by code_simp
  have h4: "call ParseSubfileDesignatorFunc \<lparr>data = ''DLxxxx0277ZV'', pos = 0\<rparr> initialResult =
     Threw ParseError \<lparr>data = ''DLxxxx0277ZV'', pos = 0\<rparr> ParseSubfileDesignatorFunc"
    by code_simp
  from C2_step_atomic_on_insufficient_data
    [of ReadDataElementSeparator "\<lparr>data = ''@'', pos = 1\<rparr>" initialResult
        "\<lparr>data = ''@'', pos = 1\<rparr>" ReadDataElementSeparator
        "\<lparr>reader = \<lparr>data = ''@'', pos = 1\<rparr>,
          funcs = [ReadDataElementSeparator, ReadRecordSeparator], result = initialResult\<rparr>"
        ReadDataElementSeparator "[ReadRecordSeparator]" "\<lparr>data = ''@'', pos = 1\<rparr>"
        ReadDataElementSeparator]
    h1
  have "parse \<lparr>reader = \<lparr>data = ''@'', pos = 1\<rparr>,
          funcs = [ReadDataElementSeparator, ReadRecordSeparator], result = initialResult\<rparr> =
     (Inl EOF, \<lparr>reader = \<lparr>data = ''@'', pos = 1\<rparr>,
          funcs = [ReadDataElementSeparator, ReadRecordSeparator], result = initialResult\<rparr>)"
    by simp
  with h1 h2 h3 h4 show ?thesis by simp
qed




text \<open>
  C4 (separator rejection), as amended. In the step engine each of the three separator
  steps (\<^verbatim>\<open>readSeparator\<close>), on reading an ASCII letter, digit or space, raises
  \<open>HeaderParseError\<close> with the cursor just past that one character; so does
  \<^verbatim>\<open>parse()\<close> on any input \<^verbatim>\<open>@abc...\<close> one of whose three separators is such a
  character, stopping right after the first offending one, and so it does on
  \<^verbatim>\<open>"@  ANSI 000000000000XXXXXX"\<close>. The one-call \<^verbatim>\<open>parseHeader\<close> of part_002 never
  raises a header-class error: it rejects a letter or digit (not a space) in the first
  separator position only, with \<open>ParseError\<close> and without consuming anything.
\<close>

theorem C4_separator_rejection:
  "(isSeparatorStep f \<and> 0 \<le> pos rd \<and> pos rd < int (length (data rd)) \<and>
    invalidSeparatorChar (data rd ! nat (pos rd)) \<longrightarrow>
      call f rd res = Threw HeaderParseError (rd\<lparr>pos := pos rd + 1\<rparr>) f \<and>
      parse \<lparr>reader = rd, funcs = f # rest, result = res\<rparr> =
        (Inl HeaderParseError,
         \<lparr>reader = rd\<lparr>pos := pos rd + 1\<rparr>, funcs = f # rest, result = res\<rparr>)) \<and>
   (invalidSeparatorChar a \<or> invalidSeparatorChar b \<or> invalidSeparatorChar c \<longrightarrow>
      fst (parse (makeDLIDParser \<lparr>data = CHR ''@'' # a # b # c # xs, pos = 0\<rparr>)) =
        Inl HeaderParseError \<and>
      pos (reader (snd (parse (makeDLIDParser \<lparr>data = CHR ''@'' # a # b # c # xs, pos = 0\<rparr>)))) =
        (if invalidSeparatorChar a then 2 else if invalidSeparatorChar b then 3 else 4)) \<and>
   fst (parse (makeDLIDParser \<lparr>data = ''@  ANSI 000000000000XXXXXX'', pos = 0\<rparr>)) =
     Inl HeaderParseError \<and>
   fst (parseHeader_M rdm) \<noteq> Inl HeaderParseError \<and>
   (0 \<le> pos rdm \<and> pos rdm + 1 < int (length (data rdm)) \<and>
    (isLower (data rdm ! nat (pos rdm + 1)) \<or> isUpper (data rdm ! nat (pos rdm + 1)) \<or>
     isDigit (data rdm ! nat (pos rdm + 1))) \<longrightarrow>
      parseHeader_M rdm = (Inl ParseError, rdm))"
proof (intro conjI impI)
  assume a: "isSeparatorStep f \<and> 0 \<le> pos rd \<and> pos rd < int (length (data rd)) \<and>
    invalidSeparatorChar (data rd ! nat (pos rd))"
  then show c: "call f rd res = Threw HeaderParseError (rd\<lparr>pos := pos rd + 1\<rparr>) f"
    by (simp add: separator_step_rejects)
  then show "parse \<lparr>reader = rd, funcs = f # rest, result = res\<rparr> =
        (Inl HeaderParseError,
         \<lparr>reader = rd\<lparr>pos := pos rd + 1\<rparr>, funcs = f # rest, result = res\<rparr>)"
    by (simp add: parse_Cons)
next
  assume bad: "invalidSeparatorChar a \<or> invalidSeparatorChar b \<or> invalidSeparatorChar c"
  let ?d = "CHR ''@'' # a # b # c # xs"
  let ?p = "parse (makeDLIDParser \<lparr>data = ?d, pos = 0\<rparr>)"
  have "fst ?p = Inl HeaderParseError \<and> pos (reader (snd ?p)) =
        (if invalidSeparatorChar a then 2 else if invalidSeparatorChar b then 3 else 4)"
  proof (cases "invalidSeparatorChar a")
    case True
    then show ?thesis
      by (simp add: header_start parse_Cons readSeparator_invalid)
  next
    case na: False
    show ?thesis
    proof (cases "invalidSeparatorChar b")
      case True
      with na show ?thesis
        by (simp add: header_start parse_Cons readSeparator_invalid readSeparator_valid)
    next
      case False
      with na bad show ?thesis
        by (simp add: header_start parse_Cons readSeparator_invalid readSeparator_valid)
    qed
  qed
  then show "fst ?p = Inl HeaderParseError"
    and "pos (reader (snd ?p)) =
        (if invalidSeparatorChar a then 2 else if invalidSeparatorChar b then 3 else 4)"
    by simp_all
next
  show "fst (parse (makeDLIDParser \<lparr>data = ''@  ANSI 000000000000XXXXXX'', pos = 0\<rparr>)) =
     Inl HeaderParseError"
    by code_simp
next
  show "fst (parseHeader_M rdm) \<noteq> Inl HeaderParseError"
    by (rule parseHeader_M_never_header_error)
next
  assume "0 \<le> pos rdm \<and> pos rdm + 1 < int (length (data rdm)) \<and>
    (isLower (data rdm ! nat (pos rdm + 1)) \<or> isUpper (data rdm ! nat (pos rdm + 1)) \<or>
     isDigit (data rdm ! nat (pos rdm + 1)))"
  then show "parseHeader_M rdm = (Inl ParseError, rdm)"
    by (simp add: parseHeader_M_rejects_alnum_first)
qed


theorem C4_witness:
  "isSeparatorStep ReadDataElementSeparator \<and>
   invalidSeparatorChar (data \<lparr>data = ''@  ANSI 000000000000XXXXXX'', pos = 1\<rparr> ! nat 1) \<and>
   call ReadDataElementSeparator \<lparr>data = ''@  ANSI 000000000000XXXXXX'', pos = 1\<rparr> initialResult =
     Threw HeaderParseError \<lparr>data = ''@  ANSI 000000000000XXXXXX'', pos = 2\<rparr>
       ReadDataElementSeparator \<and>
   fst (parse (makeDLIDParser \<lparr>data = CHR ''@'' # CHR '' '' # CHR '' '' # CHR ''A'' #
                 ''NSI 000000000000XXXXXX'', pos = 0\<rparr>)) = Inl HeaderParseError \<and>
   pos (reader (snd (parse (makeDLIDParser \<lparr>data = CHR ''@'' # CHR '' '' # CHR '' '' # CHR ''A'' #
                 ''NSI 000000000000XXXXXX'', pos = 0\<rparr>)))) = 2 \<and>
   parseHeader_M \<lparr>data = ''@A'', pos = 0\<rparr> = (Inl ParseError, \<lparr>data = ''@A'', pos = 0\<rparr>)"
proof -
  let ?rd = "\<lparr>data = ''@  ANSI 000000000000XXXXXX'', pos = 1\<rparr>"
  let ?rdm = "\<lparr>data = ''@A'', pos = 0\<rparr>"
  note t = C4_separator_rejection [of ReadDataElementSeparator ?rd initialResult "[]"
      "CHR '' ''" "CHR '' ''" "CHR ''A''" "''NSI 000000000000XXXXXX''" ?rdm]
  have s: "isSeparatorStep ReadDataElementSeparator" by (simp add: isSeparatorStep_def)
  have i: "invalidSeparatorChar (data ?rd ! nat 1)" by (simp add: invalidSeparatorChar_def)
  have i': "invalidSeparatorChar (CHR '' '')" by (simp add: invalidSeparatorChar_def)
  have h1: "isSeparatorStep ReadDataElementSeparator \<and> 0 \<le> pos ?rd \<and>
            pos ?rd < int (length (data ?rd)) \<and> invalidSeparatorChar (data ?rd ! nat (pos ?rd))"
    using s i by simp
  have hm: "0 \<le> pos ?rdm \<and> pos ?rdm + 1 < int (length (data ?rdm)) \<and>
    (isLower (data ?rdm ! nat (pos ?rdm + 1)) \<or> isUpper (data ?rdm ! nat (pos ?rdm + 1)) \<or>
     isDigit (data ?rdm ! nat (pos ?rdm + 1)))"
    by (simp add: isUpper_def)
  from t h1 have c1: "call ReadDataElementSeparator ?rd initialResult =
     Threw HeaderParseError (?rd\<lparr>pos := pos ?rd + 1\<rparr>) ReadDataElementSeparator"
    by blast
  from t i' have c2: "fst (parse (makeDLIDParser \<lparr>data = CHR ''@'' # CHR '' '' # CHR '' '' # CHR ''A'' #
                 ''NSI 000000000000XXXXXX'', pos = 0\<rparr>)) = Inl HeaderParseError \<and>
   pos (reader (snd (parse (makeDLIDParser \<lparr>data = CHR ''@'' # CHR '' '' # CHR '' '' # CHR ''A'' #
                 ''NSI 000000000000XXXXXX'', pos = 0\<rparr>)))) =
     (if invalidSeparatorChar (CHR '' '') then 2 else if invalidSeparatorChar (CHR '' '') then 3 else 4)"
    by blast
  from t hm have c3: "parseHeader_M ?rdm = (Inl ParseError, ?rdm)" by blast
  from s i c1 c2 c3 i' show ?thesis by simp
qed

theorem C4_counterexample:
  "parseHeader_M \<lparr>data = [CHR ''@'', CHR '' '', CHR 0x1E, CHR 0x0D] @ ''ANSI 636000110002'',
                  pos = 0\<rparr> =
     (Inr \<lparr>dataElementSeparator = '' '', recordSeparator = [CHR 0x1E],
           segmentTerminator = [CHR 0x0D], iin = ''636000'', aamvaVersion = ''11'',
           jurisdictionVersion = ''00'', numEntries = 2\<rparr>,
      \<lparr>data = [CHR ''@'', CHR '' '', CHR 0x1E, CHR 0x0D] @ ''ANSI 636000110002'', pos = 21\<rparr>) \<and>
   parseHeader_M \<lparr>data = ''@  ANSI 000000000000XXXXXX'', pos = 0\<rparr> =
     (Inl ParseError, \<lparr>data = ''@  ANSI 000000000000XXXXXX'', pos = 0\<rparr>)"
  by code_simp

text \<open>
  C5 (record boundary correctness). Let the header hold the data element separator LF
  and the segment terminator CR, and let a designator of type \<^verbatim>\<open>DL\<close> declare the 25
  characters \<open>boundaryBody\<close>, wherever they lie in the buffer and whatever surrounds
  them. Then the step engine replaces the subfile step by the commit of exactly the records
  DAQ = T64235789 and DCS = SAMPLE; the run comes to \<^verbatim>\<open>maybeParseRecord\<close> with the window
  reader at index 24, the CR, which that call consumes (the reader is left at 25, the end
  of the window) as it commits. The append-driven \<^verbatim>\<open>parseSubfile\<close> returns the same two
  records, its scan loop leaving the window reader at 25 as well.
\<close>

theorem C5_record_boundaries:
  assumes "dataElementSeparator (header res) = [CHR 0x0A]"
    and "segmentTerminator (header res) = [CHR 0x0D]"
    and "dataElementSeparator hdr = [CHR 0x0A]"
    and "segmentTerminator hdr = [CHR 0x0D]"
    and "data rd = pre @ (boundaryBody) @ post"
    and "sd = \<lparr>sd_type = ''DL'', sd_offset = int (length pre), sd_length = 25\<rparr>"
  shows "parse \<lparr>reader = rd, funcs = ParseSubfileFunc sd # rest, result = res\<rparr> =
           parse \<lparr>reader = rd, funcs = rest,
                  result = res\<lparr>subfiles :=
                    AList.update ''DL'' [(''DAQ'', ''T64235789''), (''DCS'', ''SAMPLE'')]
                      (subfiles res)\<rparr>\<rparr> \<and>
         parse \<lparr>reader = rd, funcs = ParseSubfileFunc sd # rest, result = res\<rparr> =
           parse \<lparr>reader = rd,
                  funcs = MaybeParseRecordFunc
                    \<lparr>data = boundaryBody, pos = 24\<rparr>
                    ''DL'' [(''DAQ'', ''T64235789''), (''DCS'', ''SAMPLE'')] # rest,
                  result = res\<rparr> \<and>
         maybeParseRecord
             \<lparr>data = boundaryBody, pos = 24\<rparr>
             res ''DL'' [(''DAQ'', ''T64235789''), (''DCS'', ''SAMPLE'')] =
           (Inr (res\<lparr>subfiles :=
                   AList.update ''DL'' [(''DAQ'', ''T64235789''), (''DCS'', ''SAMPLE'')]
                     (subfiles res)\<rparr>, []),
            \<lparr>data = boundaryBody, pos = 25\<rparr>) \<and>
         parseSubfile_A hdr sd rd = Inr [(''DAQ'', ''T64235789''), (''DCS'', ''SAMPLE'')] \<and>
         parseSubfile_loop_A hdr
             \<lparr>data = boundaryBody, pos = 2\<rparr> [] =
           (Inr [(''DAQ'', ''T64235789''), (''DCS'', ''SAMPLE'')],
            \<lparr>data = boundaryBody, pos = 25\<rparr>)"
proof -
  let ?body = boundaryBody
  let ?recs = "[(''DAQ'', ''T64235789''), (''DCS'', ''SAMPLE'')]"
  let ?rd0 = "\<lparr>data = [], pos = 0\<rparr>"
  have len: "int (length ?body) = 25" by (simp add: boundaryBody_def)
  have pk: "peek (sd_length sd) \<lparr>data = data rd, pos = sd_offset sd\<rparr> = Inr ?body"
    using peek_window [OF assms(5)] by (simp add: assms(6) len)
  have sep: "sameSeparators res exampleHeaderResult"
    using assms(1,2)
    by (simp add: sameSeparators_def exampleHeaderResult_def exampleDataHeader_def)
  have first: "parse \<lparr>reader = rd, funcs = ParseSubfileFunc sd # rest, result = res\<rparr> =
      parse \<lparr>reader = rd, funcs = MaybeParseRecordFunc \<lparr>data = ?body, pos = 2\<rparr> ''DL'' [] # rest,
             result = res\<rparr>"
    using parseSubfile_recognized [OF pk, where ?res = res] len
    by (simp add: parse_Cons assms(6))
  have run2: "parse \<lparr>reader = ?rd0, funcs = [MaybeParseRecordFunc \<lparr>data = ?body, pos = 2\<rparr> ''DL'' []],
             result = exampleHeaderResult\<rparr> =
      (Inr (exampleHeaderResult\<lparr>subfiles := [(''DL'', ?recs)]\<rparr>),
       \<lparr>reader = ?rd0, funcs = [], result = exampleHeaderResult\<lparr>subfiles := [(''DL'', ?recs)]\<rparr>\<rparr>)"
    by code_simp
  have run24: "parse \<lparr>reader = ?rd0, funcs = [MaybeParseRecordFunc \<lparr>data = ?body, pos = 24\<rparr> ''DL'' ?recs],
             result = exampleHeaderResult\<rparr> =
      (Inr (exampleHeaderResult\<lparr>subfiles := [(''DL'', ?recs)]\<rparr>),
       \<lparr>reader = ?rd0, funcs = [], result = exampleHeaderResult\<lparr>subfiles := [(''DL'', ?recs)]\<rparr>\<rparr>)"
    by code_simp
  have a: "parse \<lparr>reader = rd, funcs = MaybeParseRecordFunc \<lparr>data = ?body, pos = 2\<rparr> ''DL'' [] # rest,
             result = res\<rparr> =
           parse \<lparr>reader = rd, funcs = rest,
                  result = res\<lparr>subfiles := AList.update ''DL'' ?recs (subfiles res)\<rparr>\<rparr>"
    using record_run [where ?p0.0 = "\<lparr>reader = ?rd0,
             funcs = [MaybeParseRecordFunc \<lparr>data = ?body, pos = 2\<rparr> ''DL'' []],
             result = exampleHeaderResult\<rparr>" and ?res = res and ?rd = rd and ?rest = rest] sep
    by (simp add: run2)
  have b: "parse \<lparr>reader = rd, funcs = MaybeParseRecordFunc \<lparr>data = ?body, pos = 24\<rparr> ''DL'' ?recs # rest,
             result = res\<rparr> =
           parse \<lparr>reader = rd, funcs = rest,
                  result = res\<lparr>subfiles := AList.update ''DL'' ?recs (subfiles res)\<rparr>\<rparr>"
    using record_run [where ?p0.0 = "\<lparr>reader = ?rd0,
             funcs = [MaybeParseRecordFunc \<lparr>data = ?body, pos = 24\<rparr> ''DL'' ?recs],
             result = exampleHeaderResult\<rparr>" and ?res = res and ?rd = rd and ?rest = rest] sep
    by (simp add: run24)
  have m0: "maybeParseRecord \<lparr>data = ?body, pos = 24\<rparr> exampleHeaderResult ''DL'' ?recs =
           (Inr (exampleHeaderResult\<lparr>subfiles := [(''DL'', ?recs)]\<rparr>, []), \<lparr>data = ?body, pos = 25\<rparr>)"
    by code_simp
  have m: "maybeParseRecord \<lparr>data = ?body, pos = 24\<rparr> res ''DL'' ?recs =
           (Inr (res\<lparr>subfiles := AList.update ''DL'' ?recs (subfiles res)\<rparr>, []),
            \<lparr>data = ?body, pos = 25\<rparr>)"
    using maybeParseRecord_frame [OF sep, of "\<lparr>data = ?body, pos = 24\<rparr>" "''DL''" ?recs]
    by (simp add: m0)
  have l0: "parseSubfile_loop_A exampleDataHeader \<lparr>data = ?body, pos = 2\<rparr> [] =
           (Inr ?recs, \<lparr>data = ?body, pos = 25\<rparr>)"
    by code_simp
  have l: "parseSubfile_loop_A hdr \<lparr>data = ?body, pos = 2\<rparr> [] =
           (Inr ?recs, \<lparr>data = ?body, pos = 25\<rparr>)"
  proof -
    have "dataElementSeparator hdr = dataElementSeparator exampleDataHeader"
      and "segmentTerminator hdr = segmentTerminator exampleDataHeader"
      using assms(3,4) by (simp_all add: exampleDataHeader_def)
    then show ?thesis
      using l0 by (simp add: parseSubfile_loop_A_frame [of hdr exampleDataHeader])
  qed
  have v2: "parseSubfile_A hdr sd rd = Inr ?recs"
    using pk l len by (simp add: parseSubfile_A_def read_def peek_def avail_def)
  show ?thesis
    using first a b m l v2 by simp
qed


theorem C5_witness:
  "dataElementSeparator (header exampleHeaderResult) = [CHR 0x0A] \<and>
   segmentTerminator (header exampleHeaderResult) = [CHR 0x0D] \<and>
   parse \<lparr>reader = \<lparr>data = ''xyz'' @ boundaryBody @ ''ZVZVA01'', pos = 0\<rparr>,
          funcs = [ParseSubfileFunc \<lparr>sd_type = ''DL'', sd_offset = 3, sd_length = 25\<rparr>],
          result = exampleHeaderResult\<rparr> =
     (Inr (exampleHeaderResult\<lparr>subfiles :=
             [(''DL'', [(''DAQ'', ''T64235789''), (''DCS'', ''SAMPLE'')])]\<rparr>),
      \<lparr>reader = \<lparr>data = ''xyz'' @ boundaryBody @ ''ZVZVA01'', pos = 0\<rparr>, funcs = [],
       result = exampleHeaderResult\<lparr>subfiles :=
             [(''DL'', [(''DAQ'', ''T64235789''), (''DCS'', ''SAMPLE'')])]\<rparr>\<rparr>) \<and>
   parseSubfile_A exampleDataHeader \<lparr>sd_type = ''DL'', sd_offset = 3, sd_length = 25\<rparr>
       \<lparr>data = ''xyz'' @ boundaryBody @ ''ZVZVA01'', pos = 0\<rparr> =
     Inr [(''DAQ'', ''T64235789''), (''DCS'', ''SAMPLE'')]"
proof -
  let ?rd = "\<lparr>data = ''xyz'' @ boundaryBody @ ''ZVZVA01'', pos = 0\<rparr>"
  let ?sd = "\<lparr>sd_type = ''DL'', sd_offset = 3, sd_length = 25\<rparr>"
  have h1: "dataElementSeparator (header exampleHeaderResult) = [CHR 0x0A]"
    and h2: "segmentTerminator (header exampleHeaderResult) = [CHR 0x0D]"
    and h3: "dataElementSeparator exampleDataHeader = [CHR 0x0A]"
    and h4: "segmentTerminator exampleDataHeader = [CHR 0x0D]"
    by (simp_all add: exampleHeaderResult_def exampleDataHeader_def)
  have h5: "data ?rd = ''xyz'' @ boundaryBody @ ''ZVZVA01''" by simp
  have h6: "?sd = \<lparr>sd_type = ''DL'', sd_offset = int (length ''xyz''), sd_length = 25\<rparr>"
    by simp
  note t = C5_record_boundaries [OF h1 h2 h3 h4 h5 h6, of "[]"]
  have u: "AList.update ''DL'' [(''DAQ'', ''T64235789''), (''DCS'', ''SAMPLE'')]
             (subfiles exampleHeaderResult) =
           [(''DL'', [(''DAQ'', ''T64235789''), (''DCS'', ''SAMPLE'')])]"
    by (simp add: exampleHeaderResult_def)
  have p: "parse \<lparr>reader = ?rd, funcs = [ParseSubfileFunc ?sd], result = exampleHeaderResult\<rparr> =
     (Inr (exampleHeaderResult\<lparr>subfiles :=
             [(''DL'', [(''DAQ'', ''T64235789''), (''DCS'', ''SAMPLE'')])]\<rparr>),
      \<lparr>reader = ?rd, funcs = [],
       result = exampleHeaderResult\<lparr>subfiles :=
             [(''DL'', [(''DAQ'', ''T64235789''), (''DCS'', ''SAMPLE'')])]\<rparr>\<rparr>)"
    using t [THEN conjunct1] by (simp add: parse_Nil u)
  have q: "parseSubfile_A exampleDataHeader ?sd ?rd =
     Inr [(''DAQ'', ''T64235789''), (''DCS'', ''SAMPLE'')]"
    using t by blast
  from h1 h2 p q show ?thesis by blast
qed

text \<open>
  C6 (extra data element separators). The scan loop of \<^verbatim>\<open>parseSubfile\<close> in the
  append-driven parser (the same text in src/unnamed/part_002) consumes a data element separator
  it peeks and goes on, as the claim says: \<open>parseSubfile_loop_A_skip\<close> and
  \<open>parseSubfile_A_leading\<close> above. The step engine does not. On the input whose one subfile
  is \<^verbatim>\<open>DL\<close>, a line feed, \<^verbatim>\<open>DAQT64235789\<close>, a line feed, \<^verbatim>\<open>DCSSAMPLE\<close> and a carriage
  return, with the line feed as data element separator, \<^verbatim>\<open>parse()\<close> throws
  \<^verbatim>\<open>ParseError\<close> and commits no subfile, where \<^verbatim>\<open>parseSubfile\<close> of the append-driven
  parser returns, for the same designator and buffer, the records DAQ and DCS: the records the
  step engine gives for the body without the leading separator.
\<close>

theorem C6_leading_separator_rejected:
  "fst (parse (makeDLIDParser \<lparr>data = leadingSeparatorInput, pos = 0\<rparr>)) = Inl ParseError \<and>
   subfiles (result (snd (parse (makeDLIDParser \<lparr>data = leadingSeparatorInput, pos = 0\<rparr>)))) = [] \<and>
   subfileDesignators (result (snd (parse (makeDLIDParser
       \<lparr>data = leadingSeparatorInput, pos = 0\<rparr>)))) =
     [\<lparr>sd_type = ''DL'', sd_offset = 31, sd_length = 26\<rparr>] \<and>
   parseSubfile_A exampleDataHeader \<lparr>sd_type = ''DL'', sd_offset = 31, sd_length = 26\<rparr>
       \<lparr>data = leadingSeparatorInput, pos = 31\<rparr> =
     Inr [(''DAQ'', ''T64235789''), (''DCS'', ''SAMPLE'')] \<and>
   fst (parse \<lparr>reader = \<lparr>data = boundaryBody, pos = 0\<rparr>,
               funcs = [ParseSubfileFunc \<lparr>sd_type = ''DL'', sd_offset = 0, sd_length = 25\<rparr>],
               result = exampleHeaderResult\<rparr>) =
     Inr (exampleHeaderResult\<lparr>subfiles :=
            [(''DL'', [(''DAQ'', ''T64235789''), (''DCS'', ''SAMPLE'')])]\<rparr>)"
  by code_simp

text \<open>
  C7 (terminal failed state), on the append-driven parser. \<^verbatim>\<open>updateParse\<close> records in
  \<^verbatim>\<open>this.error\<close> every error of a step that is not \<^verbatim>\<open>EOF\<close>, and \<^verbatim>\<open>append\<close> on a
  parser with an error returns \<^verbatim>\<open>false\<close> before it touches anything: the parser, its
  header, designator list, subfiles, done flag, buffer and cursor, is the same after one such
  call and after any number of them. An \<^verbatim>\<open>append\<close> that returns \<^verbatim>\<open>false\<close> without the
  parser being done has recorded an error, so it is in that state.
\<close>

theorem C7_terminal_failed_state:
  "(error_A p \<noteq> None \<longrightarrow> append_A d p = (False, p) \<and> feed_A ds p = p) \<and>
   (\<not> done_A p \<and> error_A p = None \<and> updateParseOnce_A p = (Some e, p') \<and> e \<noteq> EOF \<longrightarrow>
      updateParse_A p = (False, p'\<lparr>error_A := Some e\<rparr>)) \<and>
   (append_A d p = (False, q) \<and> \<not> done_A q \<longrightarrow>
      error_A q \<noteq> None \<and> append_A d' q = (False, q) \<and> feed_A ds q = q)"
proof (intro conjI impI)
  assume "error_A p \<noteq> None"
  then show "append_A d p = (False, p)" and "feed_A ds p = p"
    by (rule append_A_failed, rule feed_A_failed)
next
  assume "\<not> done_A p \<and> error_A p = None \<and> updateParseOnce_A p = (Some e, p') \<and> e \<noteq> EOF"
  then show "updateParse_A p = (False, p'\<lparr>error_A := Some e\<rparr>)"
    by (simp add: updateParse_A_def updateParse_loop_A_latch)
next
  assume a: "append_A d p = (False, q) \<and> \<not> done_A q"
  with append_A_False [of d p q] show e: "error_A q \<noteq> None" by blast
  then show "append_A d' q = (False, q)" and "feed_A ds q = q"
    by (rule append_A_failed, rule feed_A_failed)
qed

theorem C7_witness:
  "append_A ''@  ANSI 000000000000XXXXXX'' (makeDLIDParser_A []) =
     (False, (makeDLIDParser_A ''@  ANSI 000000000000XXXXXX'')
        \<lparr>reader_A := \<lparr>data = ''@  ANSI 000000000000XXXXXX'', pos = 2\<rparr>,
         error_A := Some ParseError,
         steps_A := drop 1 (steps_A (makeDLIDParser_A []))\<rparr>) \<and>
   append_A [CHR 0x0A] (snd (append_A ''@  ANSI 000000000000XXXXXX'' (makeDLIDParser_A []))) =
     (False, snd (append_A ''@  ANSI 000000000000XXXXXX'' (makeDLIDParser_A []))) \<and>
   feed_A [''@'', [CHR 0x0A, CHR 0x1E, CHR 0x0D], ''ANSI 636000110000'']
       (snd (append_A ''@  ANSI 000000000000XXXXXX'' (makeDLIDParser_A []))) =
     snd (append_A ''@  ANSI 000000000000XXXXXX'' (makeDLIDParser_A []))"
proof -
  let ?q = "(makeDLIDParser_A ''@  ANSI 000000000000XXXXXX'')
        \<lparr>reader_A := \<lparr>data = ''@  ANSI 000000000000XXXXXX'', pos = 2\<rparr>,
         error_A := Some ParseError,
         steps_A := drop 1 (steps_A (makeDLIDParser_A []))\<rparr>"
  have a: "append_A ''@  ANSI 000000000000XXXXXX'' (makeDLIDParser_A []) = (False, ?q)"
    by code_simp
  have b: "\<not> done_A ?q" by (simp add: makeDLIDParser_A_def)
  note t = C7_terminal_failed_state [THEN conjunct2, THEN conjunct2, rule_format,
      OF conjI [OF a b]]
  from t [of "[CHR 0x0A]" "[''@'', [CHR 0x0A, CHR 0x1E, CHR 0x0D], ''ANSI 636000110000'']"]
  have "append_A [CHR 0x0A] ?q = (False, ?q)"
    and "feed_A [''@'', [CHR 0x0A, CHR 0x1E, CHR 0x0D], ''ANSI 636000110000''] ?q = ?q"
    by blast+
  with a show ?thesis by (simp only: snd_conv) 
qed

text \<open>
  C8 (unrecognised subfile types), as the code has it. For a designator whose type is neither
  \<^verbatim>\<open>DL\<close> nor \<^verbatim>\<open>ID\<close>, the subfile step of the step engine only peeks the declared
  range: when the buffer holds it (the length is at most what the buffer has from the offset on)
  the step returns with the result, designator list included, unchanged and queues nothing, and
  otherwise it throws \<^verbatim>\<open>EOF\<close> and stays first in the queue. A result that \<^verbatim>\<open>parse()\<close>
  returns from a fresh parser has no subfile key but \<^verbatim>\<open>DL\<close> and \<^verbatim>\<open>ID\<close>. The step of
  the append-driven parser makes the same check and keeps the designator list, but it stores the
  type in the subfiles, mapped to no records.
\<close>

theorem C8_unrecognized_type:
  "(sd_type sd \<noteq> ''DL'' \<and> sd_type sd \<noteq> ''ID'' \<longrightarrow>
      parse \<lparr>reader = rd, funcs = ParseSubfileFunc sd # rest, result = res\<rparr> =
        (if sd_length sd \<le> int (length (data rd)) - sd_offset sd
         then parse \<lparr>reader = rd, funcs = rest, result = res\<rparr>
         else (Inl EOF, \<lparr>reader = rd, funcs = ParseSubfileFunc sd # rest, result = res\<rparr>))) \<and>
   (fst (parse (makeDLIDParser rd0)) = Inr r \<longrightarrow>
      (\<forall>k \<in> fst ` set (subfiles r). k = ''DL'' \<or> k = ''ID'')) \<and>
   (sd_type sd \<noteq> ''DL'' \<and> sd_type sd \<noteq> ''ID'' \<and>
    sd_length sd \<le> int (length (data (reader_A p))) - sd_offset sd \<longrightarrow>
      fst (step_A (SubfileStep_A sd) p) = None \<and>
      map_of (subfiles_A (snd (step_A (SubfileStep_A sd) p))) =
        (map_of (subfiles_A p))(sd_type sd \<mapsto> []) \<and>
      subfileDesignators_A (snd (step_A (SubfileStep_A sd) p)) = subfileDesignators_A p) \<and>
   (sd_type sd \<noteq> ''DL'' \<and> sd_type sd \<noteq> ''ID'' \<and>
    \<not> sd_length sd \<le> int (length (data (reader_A p))) - sd_offset sd \<longrightarrow>
      step_A (SubfileStep_A sd) p = (Some EOF, p))"
proof (intro conjI impI)
  assume "sd_type sd \<noteq> ''DL'' \<and> sd_type sd \<noteq> ''ID''"
  then show "parse \<lparr>reader = rd, funcs = ParseSubfileFunc sd # rest, result = res\<rparr> =
        (if sd_length sd \<le> int (length (data rd)) - sd_offset sd
         then parse \<lparr>reader = rd, funcs = rest, result = res\<rparr>
         else (Inl EOF, \<lparr>reader = rd, funcs = ParseSubfileFunc sd # rest, result = res\<rparr>))"
    by (intro unrecognized_step) simp_all
next
  assume a: "fst (parse (makeDLIDParser rd0)) = Inr r"
  have "\<forall>f \<in> set (funcs (makeDLIDParser rd0)). stepRecognized f"
    and "recognizedOnly (subfiles (result (makeDLIDParser rd0)))"
    by (simp_all add: makeDLIDParser_def initialResult_def recognizedOnly_def)
  from parse_recognized [OF this] a have "recognizedOnly (subfiles r)" by blast
  then show "\<forall>k \<in> fst ` set (subfiles r). k = ''DL'' \<or> k = ''ID''"
    by (simp add: recognizedOnly_def)
next
  assume a: "sd_type sd \<noteq> ''DL'' \<and> sd_type sd \<noteq> ''ID'' \<and>
    sd_length sd \<le> int (length (data (reader_A p))) - sd_offset sd"
  then have "step_A (SubfileStep_A sd) p =
      (None, p\<lparr>subfiles_A := AList.update (sd_type sd) [] (subfiles_A p)\<rparr>)"
    using unrecognized_step_A [of sd p] by presburger
  then show "fst (step_A (SubfileStep_A sd) p) = None"
    and "map_of (subfiles_A (snd (step_A (SubfileStep_A sd) p))) =
        (map_of (subfiles_A p))(sd_type sd \<mapsto> [])"
    and "subfileDesignators_A (snd (step_A (SubfileStep_A sd) p)) = subfileDesignators_A p"
    by (simp_all add: update_conv' del: step_A.simps)
next
  assume "sd_type sd \<noteq> ''DL'' \<and> sd_type sd \<noteq> ''ID'' \<and>
    \<not> sd_length sd \<le> int (length (data (reader_A p))) - sd_offset sd"
  then show "step_A (SubfileStep_A sd) p = (Some EOF, p)"
    using unrecognized_step_A [of sd p] by presburger
qed

theorem C8_witness:
  "parse \<lparr>reader = \<lparr>data = unrecognizedInput, pos = 41\<rparr>,
          funcs = [ParseSubfileFunc \<lparr>sd_type = ''ZV'', sd_offset = 66, sd_length = 8\<rparr>],
          result = exampleHeaderResult\<rparr> =
     (Inr exampleHeaderResult,
      \<lparr>reader = \<lparr>data = unrecognizedInput, pos = 41\<rparr>, funcs = [],
       result = exampleHeaderResult\<rparr>) \<and>
   parse \<lparr>reader = \<lparr>data = unrecognizedInput, pos = 41\<rparr>,
          funcs = [ParseSubfileFunc \<lparr>sd_type = ''ZV'', sd_offset = 66, sd_length = 9\<rparr>],
          result = exampleHeaderResult\<rparr> =
     (Inl EOF,
      \<lparr>reader = \<lparr>data = unrecognizedInput, pos = 41\<rparr>,
       funcs = [ParseSubfileFunc \<lparr>sd_type = ''ZV'', sd_offset = 66, sd_length = 9\<rparr>],
       result = exampleHeaderResult\<rparr>) \<and>
   subfileDesignators (projr (fst (parse (makeDLIDParser \<lparr>data = unrecognizedInput, pos = 0\<rparr>)))) =
     [\<lparr>sd_type = ''DL'', sd_offset = 41, sd_length = 25\<rparr>,
      \<lparr>sd_type = ''ZV'', sd_offset = 66, sd_length = 8\<rparr>] \<and>
   map_of (subfiles (projr (fst (parse (makeDLIDParser \<lparr>data = unrecognizedInput, pos = 0\<rparr>)))))
     ''ZV'' = None \<and>
   map_of (subfiles_A (snd (step_A
       (SubfileStep_A \<lparr>sd_type = ''ZV'', sd_offset = 66, sd_length = 8\<rparr>)
       (makeDLIDParser_A unrecognizedInput)))) ''ZV'' = Some []"
proof -
  let ?rd = "\<lparr>data = unrecognizedInput, pos = 41\<rparr>"
  let ?sd = "\<lparr>sd_type = ''ZV'', sd_offset = 66, sd_length = 8\<rparr>"
  let ?sd' = "\<lparr>sd_type = ''ZV'', sd_offset = 66, sd_length = 9\<rparr>"
  let ?p = "parse (makeDLIDParser \<lparr>data = unrecognizedInput, pos = 0\<rparr>)"
  have len: "length unrecognizedInput = 74" by code_simp
  have t: "sd_type ?sd \<noteq> ''DL'' \<and> sd_type ?sd \<noteq> ''ID''"
    and t': "sd_type ?sd' \<noteq> ''DL'' \<and> sd_type ?sd' \<noteq> ''ID''" by simp_all
  from C8_unrecognized_type [THEN conjunct1, rule_format, OF t, of ?rd "[]" exampleHeaderResult]
  have a: "parse \<lparr>reader = ?rd, funcs = [ParseSubfileFunc ?sd], result = exampleHeaderResult\<rparr> =
     (Inr exampleHeaderResult, \<lparr>reader = ?rd, funcs = [], result = exampleHeaderResult\<rparr>)"
    by (simp add: len parse_Nil)
  from C8_unrecognized_type [THEN conjunct1, rule_format, OF t', of ?rd "[]" exampleHeaderResult]
  have b: "parse \<lparr>reader = ?rd, funcs = [ParseSubfileFunc ?sd'], result = exampleHeaderResult\<rparr> =
     (Inl EOF, \<lparr>reader = ?rd, funcs = [ParseSubfileFunc ?sd'], result = exampleHeaderResult\<rparr>)"
    by (simp add: len)
  have c: "fst ?p = Inr \<lparr>header = exampleDataHeader,
        subfileDesignators = [\<lparr>sd_type = ''DL'', sd_offset = 41, sd_length = 25\<rparr>,
                              \<lparr>sd_type = ''ZV'', sd_offset = 66, sd_length = 8\<rparr>],
        subfiles = [(''DL'', [(''DAQ'', ''T64235789''), (''DCS'', ''SAMPLE'')])]\<rparr>"
    by code_simp
  then have d: "subfileDesignators (projr (fst ?p)) =
     [\<lparr>sd_type = ''DL'', sd_offset = 41, sd_length = 25\<rparr>,
      \<lparr>sd_type = ''ZV'', sd_offset = 66, sd_length = 8\<rparr>]"
    by simp
  from c have "fst ?p = Inr (projr (fst ?p))" by simp
  from C8_unrecognized_type [THEN conjunct2, THEN conjunct1, rule_format, OF this]
  have "\<forall>k \<in> fst ` set (subfiles (projr (fst ?p))). k = ''DL'' \<or> k = ''ID''"
    by blast
  then have "''ZV'' \<notin> fst ` set (subfiles (projr (fst ?p)))" by fastforce
  then have e: "map_of (subfiles (projr (fst ?p))) ''ZV'' = None"
    by (simp add: map_of_eq_None_iff)
  have "sd_type ?sd \<noteq> ''DL'' \<and> sd_type ?sd \<noteq> ''ID'' \<and>
    sd_length ?sd \<le> int (length (data (reader_A (makeDLIDParser_A unrecognizedInput)))) -
      sd_offset ?sd"
    by (simp add: makeDLIDParser_A_def len)
  from C8_unrecognized_type [THEN conjunct2, THEN conjunct2, THEN conjunct1, rule_format, OF this]
  have f: "map_of (subfiles_A (snd (step_A (SubfileStep_A ?sd)
       (makeDLIDParser_A unrecognizedInput)))) ''ZV'' = Some []"
    by simp
  from a b d e f show ?thesis by blast
qed

text \<open>
  The append-driven parser on an input with a \<^verbatim>\<open>ZV\<close> subfile: it finishes without error
  and \<^verbatim>\<open>ZV\<close> is a key of its subfiles.
\<close>

theorem C8_counterexample:
  "fst (append_A unrecognizedInput (makeDLIDParser_A [])) = False \<and>
   error_A (snd (append_A unrecognizedInput (makeDLIDParser_A []))) = None \<and>
   done_A (snd (append_A unrecognizedInput (makeDLIDParser_A []))) \<and>
   subfileDesignators_A (snd (append_A unrecognizedInput (makeDLIDParser_A []))) =
     [\<lparr>sd_type = ''DL'', sd_offset = 41, sd_length = 25\<rparr>,
      \<lparr>sd_type = ''ZV'', sd_offset = 66, sd_length = 8\<rparr>] \<and>
   map_of (subfiles_A (snd (append_A unrecognizedInput (makeDLIDParser_A [])))) ''ZV'' = Some []"
  by code_simp

text \<open>
  C9 (snapshot isolation of subfile scanning), for a designator whose length is not negative. In
  the step engine, \<^const>\<open>parseSubfile\<close> copies the designated range
  \<open>[offset, offset + length)\<close> of the buffer into a window reader of its own, and the record
  steps scan that window only. So when two readers hold buffers that contain the designated range
  and agree on it (whatever they hold before and after it, and wherever their cursors are), a run
  of the subfile step gives the same outcome on both, the same error or the same result with the
  same remaining queue, and leaves each reader as it was. For a recognised type, every key and
  value committed by a run that returns is made of characters of the designated range.
\<close>

theorem C9_snapshot_isolation:
  assumes "0 \<le> sd_offset sd" and "0 \<le> sd_length sd"
    and "sd_offset sd + sd_length sd \<le> int (length (data rd1))"
    and "sd_offset sd + sd_length sd \<le> int (length (data rd2))"
    and "\<forall>i. sd_offset sd \<le> i \<and> i < sd_offset sd + sd_length sd \<longrightarrow>
             data rd1 ! nat i = data rd2 ! nat i"
  shows "(parse \<lparr>reader = rd1, funcs = [ParseSubfileFunc sd], result = res\<rparr> = (x, q) \<longrightarrow>
            parse \<lparr>reader = rd2, funcs = [ParseSubfileFunc sd], result = res\<rparr> =
              (x, q\<lparr>reader := rd2\<rparr>)) \<and>
         ((sd_type sd = ''DL'' \<or> sd_type sd = ''ID'') \<and>
          parse \<lparr>reader = rd1, funcs = [ParseSubfileFunc sd], result = res\<rparr> = (Inr r, q') \<longrightarrow>
            (\<exists>recs. r = res\<lparr>subfiles := AList.update (sd_type sd) recs (subfiles res)\<rparr> \<and>
               recordsWithin (take (nat (sd_length sd)) (drop (nat (sd_offset sd)) (data rd1)))
                 recs))"
proof -
  let ?w = "take (nat (sd_length sd)) (drop (nat (sd_offset sd)) (data rd1))"
  have w1: "substring (data rd1) (sd_offset sd) (sd_offset sd + sd_length sd) = ?w"
    using assms(1-3) by (rule substring_take_drop)
  have w2: "substring (data rd2) (sd_offset sd) (sd_offset sd + sd_length sd) =
            take (nat (sd_length sd)) (drop (nat (sd_offset sd)) (data rd2))"
    using assms(1,2,4) by (rule substring_take_drop)
  have eq: "take (nat (sd_length sd)) (drop (nat (sd_offset sd)) (data rd2)) = ?w"
    using windows_agree [OF assms] by simp
  have p1: "peek (sd_length sd) \<lparr>data = data rd1, pos = sd_offset sd\<rparr> = Inr ?w"
    using assms(3) w1 by (simp add: peek_def avail_def)
  have p2: "peek (sd_length sd) \<lparr>data = data rd2, pos = sd_offset sd\<rparr> = Inr ?w"
    using assms(4) w2 eq by (simp add: peek_def avail_def)
  show ?thesis
  proof (intro conjI impI)
    assume "parse \<lparr>reader = rd1, funcs = [ParseSubfileFunc sd], result = res\<rparr> = (x, q)"
    with p1 p2 show "parse \<lparr>reader = rd2, funcs = [ParseSubfileFunc sd], result = res\<rparr> =
              (x, q\<lparr>reader := rd2\<rparr>)"
      by (intro subfile_run_reader) simp_all
  next
    assume "(sd_type sd = ''DL'' \<or> sd_type sd = ''ID'') \<and>
          parse \<lparr>reader = rd1, funcs = [ParseSubfileFunc sd], result = res\<rparr> = (Inr r, q')"
    then show "\<exists>recs. r = res\<lparr>subfiles := AList.update (sd_type sd) recs (subfiles res)\<rparr> \<and>
               recordsWithin ?w recs"
      using subfile_run_within [OF p1] by blast
  qed
qed

theorem C9_witness:
  "parse \<lparr>reader = \<lparr>data = ''xyz'' @ boundaryBody @ ''ZVZVA01'', pos = 0\<rparr>,
          funcs = [ParseSubfileFunc \<lparr>sd_type = ''DL'', sd_offset = 3, sd_length = 25\<rparr>],
          result = exampleHeaderResult\<rparr> =
     (Inr (exampleHeaderResult\<lparr>subfiles :=
             [(''DL'', [(''DAQ'', ''T64235789''), (''DCS'', ''SAMPLE'')])]\<rparr>),
      \<lparr>reader = \<lparr>data = ''xyz'' @ boundaryBody @ ''ZVZVA01'', pos = 0\<rparr>, funcs = [],
       result = exampleHeaderResult\<lparr>subfiles :=
             [(''DL'', [(''DAQ'', ''T64235789''), (''DCS'', ''SAMPLE'')])]\<rparr>\<rparr>) \<and>
   parse \<lparr>reader = \<lparr>data = ''@@@'' @ boundaryBody @ ''DAQLEAK'', pos = 7\<rparr>,
          funcs = [ParseSubfileFunc \<lparr>sd_type = ''DL'', sd_offset = 3, sd_length = 25\<rparr>],
          result = exampleHeaderResult\<rparr> =
     (Inr (exampleHeaderResult\<lparr>subfiles :=
             [(''DL'', [(''DAQ'', ''T64235789''), (''DCS'', ''SAMPLE'')])]\<rparr>),
      \<lparr>reader = \<lparr>data = ''@@@'' @ boundaryBody @ ''DAQLEAK'', pos = 7\<rparr>, funcs = [],
       result = exampleHeaderResult\<lparr>subfiles :=
             [(''DL'', [(''DAQ'', ''T64235789''), (''DCS'', ''SAMPLE'')])]\<rparr>\<rparr>)"
proof -
  let ?rd1 = "\<lparr>data = ''xyz'' @ boundaryBody @ ''ZVZVA01'', pos = 0\<rparr>"
  let ?rd2 = "\<lparr>data = ''@@@'' @ boundaryBody @ ''DAQLEAK'', pos = 7\<rparr>"
  let ?sd = "\<lparr>sd_type = ''DL'', sd_offset = 3, sd_length = 25\<rparr>"
  let ?r = "exampleHeaderResult\<lparr>subfiles :=
             [(''DL'', [(''DAQ'', ''T64235789''), (''DCS'', ''SAMPLE'')])]\<rparr>"
  have len: "length boundaryBody = 25" by (simp add: boundaryBody_def)
  have h1: "0 \<le> sd_offset ?sd" and h2: "0 \<le> sd_length ?sd" by simp_all
  have h3: "sd_offset ?sd + sd_length ?sd \<le> int (length (data ?rd1))"
    and h4: "sd_offset ?sd + sd_length ?sd \<le> int (length (data ?rd2))"
    by (simp_all add: len)
  have h5: "\<forall>i. sd_offset ?sd \<le> i \<and> i < sd_offset ?sd + sd_length ?sd \<longrightarrow>
             data ?rd1 ! nat i = data ?rd2 ! nat i"
  proof (intro allI impI)
    fix i :: int
    assume "sd_offset ?sd \<le> i \<and> i < sd_offset ?sd + sd_length ?sd"
    then have "3 \<le> nat i" and "nat i - 3 < 25" by auto
    then show "data ?rd1 ! nat i = data ?rd2 ! nat i"
      by (simp add: nth_append len numeral_3_eq_3)
  qed
  have a: "parse \<lparr>reader = ?rd1, funcs = [ParseSubfileFunc ?sd], result = exampleHeaderResult\<rparr> =
     (Inr ?r, \<lparr>reader = ?rd1, funcs = [], result = ?r\<rparr>)"
    by code_simp
  from C9_snapshot_isolation [OF h1 h2 h3 h4 h5, THEN conjunct1, rule_format, OF a]
  have "parse \<lparr>reader = ?rd2, funcs = [ParseSubfileFunc ?sd], result = exampleHeaderResult\<rparr> =
     (Inr ?r, \<lparr>reader = ?rd2, funcs = [], result = ?r\<rparr>)"
    by simp
  with a show ?thesis by (rule conjI)
qed

text \<open>
  With a negative length the claim fails: \<^verbatim>\<open>peek\<close> lets a negative width through and
  \<^verbatim>\<open>substring\<close> swaps its arguments, so the window is taken before the declared offset.
  Two buffers that are equal from the offset on give different records, read at index 5; the
  whole input with the designator \<^verbatim>\<open>DL0038-007\<close> parses to such a designator.
\<close>

theorem C9_counterexample:
  "drop 7 (''DLDAQ7'' @ [CHR 0x0D] @ ''ZZ'') = drop 7 (''DLDAQ8'' @ [CHR 0x0D] @ ''ZZ'') \<and>
   fst (parse \<lparr>reader = \<lparr>data = ''DLDAQ7'' @ [CHR 0x0D] @ ''ZZ'', pos = 0\<rparr>,
               funcs = [ParseSubfileFunc \<lparr>sd_type = ''DL'', sd_offset = 7, sd_length = - 7\<rparr>],
               result = exampleHeaderResult\<rparr>) =
     Inr (exampleHeaderResult\<lparr>subfiles := [(''DL'', [(''DAQ'', ''7'')])]\<rparr>) \<and>
   fst (parse \<lparr>reader = \<lparr>data = ''DLDAQ8'' @ [CHR 0x0D] @ ''ZZ'', pos = 0\<rparr>,
               funcs = [ParseSubfileFunc \<lparr>sd_type = ''DL'', sd_offset = 7, sd_length = - 7\<rparr>],
               result = exampleHeaderResult\<rparr>) =
     Inr (exampleHeaderResult\<lparr>subfiles := [(''DL'', [(''DAQ'', ''8'')])]\<rparr>) \<and>
   length (negativeLengthInput CHR ''7'') = 38 \<and>
   subfileDesignators (projr (fst (parse (makeDLIDParser
       \<lparr>data = negativeLengthInput CHR ''7'', pos = 0\<rparr>)))) =
     [\<lparr>sd_type = ''DL'', sd_offset = 38, sd_length = - 7\<rparr>] \<and>
   subfiles (projr (fst (parse (makeDLIDParser
       \<lparr>data = negativeLengthInput CHR ''7'', pos = 0\<rparr>)))) = [(''DL'', [(''DAQ'', ''7'')])] \<and>
   subfiles (projr (fst (parse (makeDLIDParser
       \<lparr>data = negativeLengthInput CHR ''8'', pos = 0\<rparr>)))) = [(''DL'', [(''DAQ'', ''8'')])]"
  by code_simp

text \<open>
  C10 (missing-terminator leniency). When the window reader has no character left at a
  record boundary, that is when the pending step is \<^verbatim>\<open>maybeParseRecord\<close>, the step
  commits the records read so far under the subfile type, returns no follow-up step and
  throws nothing: the engine goes on with the rest of the queue, and with nothing else
  queued \<^verbatim>\<open>parse()\<close> returns the result with the subfile in it.
\<close>

theorem C10_missing_terminator_leniency:
  "avail sfReader < 1 \<Longrightarrow>
   call (MaybeParseRecordFunc sfReader sfType records) rd res =
     Returned rd (res\<lparr>subfiles := AList.update sfType records (subfiles res)\<rparr>) [] \<and>
   parse \<lparr>reader = rd, funcs = MaybeParseRecordFunc sfReader sfType records # rest,
          result = res\<rparr> =
     parse \<lparr>reader = rd, funcs = rest,
          result = res\<lparr>subfiles := AList.update sfType records (subfiles res)\<rparr>\<rparr> \<and>
   parse \<lparr>reader = rd, funcs = [MaybeParseRecordFunc sfReader sfType records],
          result = res\<rparr> =
     (Inr (res\<lparr>subfiles := AList.update sfType records (subfiles res)\<rparr>),
      \<lparr>reader = rd, funcs = [],
       result = res\<lparr>subfiles := AList.update sfType records (subfiles res)\<rparr>\<rparr>)"
proof -
  assume "avail sfReader < 1"
  then have c: "call (MaybeParseRecordFunc sfReader sfType records) rd res =
     Returned rd (res\<lparr>subfiles := AList.update sfType records (subfiles res)\<rparr>) []"
    by (simp add: maybeParseRecord_def peek_def)
  then show ?thesis
    by (simp add: parse_Returned parse_Nil)
qed

theorem C10_witness:
  "avail \<lparr>data = ''DLDAQT'' @ [CHR 0x0A], pos = 7\<rparr> < 1 \<and>
   call (MaybeParseRecordFunc \<lparr>data = ''DLDAQT'' @ [CHR 0x0A], pos = 7\<rparr> ''DL'' [(''DAQ'', ''T'')])
        \<lparr>data = ''DLDAQT'' @ [CHR 0x0A], pos = 0\<rparr> exampleHeaderResult =
     Returned \<lparr>data = ''DLDAQT'' @ [CHR 0x0A], pos = 0\<rparr>
       (exampleHeaderResult\<lparr>subfiles := [(''DL'', [(''DAQ'', ''T'')])]\<rparr>) [] \<and>
   parse \<lparr>reader = \<lparr>data = ''DLDAQT'' @ [CHR 0x0A], pos = 0\<rparr>,
          funcs = [ParseSubfileFunc \<lparr>sd_type = ''DL'', sd_offset = 0, sd_length = 7\<rparr>],
          result = exampleHeaderResult\<rparr> =
     (Inr (exampleHeaderResult\<lparr>subfiles := [(''DL'', [(''DAQ'', ''T'')])]\<rparr>),
      \<lparr>reader = \<lparr>data = ''DLDAQT'' @ [CHR 0x0A], pos = 0\<rparr>, funcs = [],
       result = exampleHeaderResult\<lparr>subfiles := [(''DL'', [(''DAQ'', ''T'')])]\<rparr>\<rparr>)"
proof -
  have a: "avail \<lparr>data = ''DLDAQT'' @ [CHR 0x0A], pos = 7\<rparr> < 1"
    by (simp add: avail_def)
  have u: "AList.update ''DL'' [(''DAQ'', ''T'')] (subfiles exampleHeaderResult) =
           [(''DL'', [(''DAQ'', ''T'')])]"
    by (simp add: exampleHeaderResult_def)
  have s: "parse \<lparr>reader = \<lparr>data = ''DLDAQT'' @ [CHR 0x0A], pos = 0\<rparr>,
          funcs = [ParseSubfileFunc \<lparr>sd_type = ''DL'', sd_offset = 0, sd_length = 7\<rparr>],
          result = exampleHeaderResult\<rparr> =
        parse \<lparr>reader = \<lparr>data = ''DLDAQT'' @ [CHR 0x0A], pos = 0\<rparr>,
          funcs = [MaybeParseRecordFunc \<lparr>data = ''DLDAQT'' @ [CHR 0x0A], pos = 7\<rparr> ''DL''
                     [(''DAQ'', ''T'')]],
          result = exampleHeaderResult\<rparr>"
    by code_simp
  note t = C10_missing_terminator_leniency [OF a, of "''DL''" "[(''DAQ'', ''T'')]"
      "\<lparr>data = ''DLDAQT'' @ [CHR 0x0A], pos = 0\<rparr>" exampleHeaderResult "[]", unfolded u]
  show ?thesis
  proof (intro conjI)
    show "avail \<lparr>data = ''DLDAQT'' @ [CHR 0x0A], pos = 7\<rparr> < 1" by (rule a)
  next
    show "call (MaybeParseRecordFunc \<lparr>data = ''DLDAQT'' @ [CHR 0x0A], pos = 7\<rparr> ''DL'' [(''DAQ'', ''T'')])
        \<lparr>data = ''DLDAQT'' @ [CHR 0x0A], pos = 0\<rparr> exampleHeaderResult =
     Returned \<lparr>data = ''DLDAQT'' @ [CHR 0x0A], pos = 0\<rparr>
       (exampleHeaderResult\<lparr>subfiles := [(''DL'', [(''DAQ'', ''T'')])]\<rparr>) []"
      by (rule t [THEN conjunct1])
  next
    show "parse \<lparr>reader = \<lparr>data = ''DLDAQT'' @ [CHR 0x0A], pos = 0\<rparr>,
          funcs = [ParseSubfileFunc \<lparr>sd_type = ''DL'', sd_offset = 0, sd_length = 7\<rparr>],
          result = exampleHeaderResult\<rparr> =
     (Inr (exampleHeaderResult\<lparr>subfiles := [(''DL'', [(''DAQ'', ''T'')])]\<rparr>),
      \<lparr>reader = \<lparr>data = ''DLDAQT'' @ [CHR 0x0A], pos = 0\<rparr>, funcs = [],
       result = exampleHeaderResult\<lparr>subfiles := [(''DL'', [(''DAQ'', ''T'')])]\<rparr>\<rparr>)"
      using s t [THEN conjunct2, THEN conjunct2] by (rule trans)
  qed
qed

end
